theory Spec2Isabelle
  imports Complex_Main "HOL-Library.AList" "HOL-Library.Multiset"
    "HOL-Library.Char_ord" "HOL-Library.List_Lexorder" "HOL-Library.Product_Lexorder"
begin

section \<open>JavaScript values used by the game module\<close>

text \<open>
  Coordinates are JavaScript numbers. The game only adds \<open>-1\<close>, \<open>0\<close> or \<open>1\<close> to a
  coordinate and clamps it to the board, so a number is an integer or \<open>NaN\<close>; \<open>NaN\<close>
  arises from \<open>+x + undefined\<close> and is kept by \<open>Math.min\<close> and \<open>Math.max\<close>.
\<close>

datatype jsnum = Num int | NaN

fun js_add :: "jsnum \<Rightarrow> jsnum \<Rightarrow> jsnum" where
  "js_add (Num a) (Num b) = Num (a + b)"
| "js_add _ _ = NaN"

fun Math_min :: "jsnum \<Rightarrow> jsnum \<Rightarrow> jsnum" where
  "Math_min (Num a) (Num b) = Num (min a b)"
| "Math_min _ _ = NaN"

fun Math_max :: "jsnum \<Rightarrow> jsnum \<Rightarrow> jsnum" where
  "Math_max (Num a) (Num b) = Num (max a b)"
| "Math_max _ _ = NaN"

text \<open>
  A position \<open>"x,y"\<close> and a coin field \<open>"row,col"\<close> are strings built by
  \<open>`${a},${b}`\<close> and read back by \<open>split(',')\<close> and unary \<open>+\<close>; the model keeps the pair
  of numbers such a string denotes.
\<close>

type_synonym point = "jsnum \<times> jsnum"

datatype exn = TypeError

text \<open>A promise is settled once: a later \<open>resolve\<close> or \<open>reject\<close> has no effect.\<close>

datatype 'a promise = Pending | Resolved 'a | Rejected exn

fun resolve :: "'a \<Rightarrow> 'a promise \<Rightarrow> 'a promise" where
  "resolve v Pending = Resolved v"
| "resolve v p = p"

section \<open>gameutil\<close>

text \<open>\<open>exports.clamp = (value, low, high) => Math.max(low, Math.min(high, value))\<close>\<close>

definition clamp :: "jsnum \<Rightarrow> jsnum \<Rightarrow> jsnum \<Rightarrow> jsnum" where
  "clamp v low high = Math_max low (Math_min high v)"

text \<open>
  \<open>Math.random()\<close> is a parameter of the model: a real \<open>u\<close> with \<open>0 \<le> u < 1\<close>.
  \<open>randomPoint\<close> draws twice.
\<close>

definition randomPoint :: "nat \<Rightarrow> nat \<Rightarrow> real \<Rightarrow> real \<Rightarrow> int \<times> int" where
  "randomPoint maxX maxY u1 u2 = (\<lfloor>u1 * real maxX\<rfloor>, \<lfloor>u2 * real maxY\<rfloor>)"

text \<open>
  The loop of \<open>permutation\<close>, \<open>for (let i = n - 1; i > 0; i -= 1)\<close>, with \<open>rnd i\<close> the
  value \<open>Math.random()\<close> returns in the iteration with index \<open>i\<close> and
  \<open>floor_random u m\<close> the index \<open>Math.floor(u * m)\<close>. The swap
  \<open>[array[i], array[j]] = [array[j], array[i]]\<close> reads both cells, then writes
  \<open>array[i]\<close>, then \<open>array[j]\<close>.
\<close>

definition floor_random :: "real \<Rightarrow> nat \<Rightarrow> nat" where
  "floor_random u m = nat \<lfloor>u * real m\<rfloor>"

fun shuffle :: "(nat \<Rightarrow> real) \<Rightarrow> nat \<Rightarrow> nat list \<Rightarrow> nat list" where
  "shuffle rnd 0 array = array"
| "shuffle rnd (Suc k) array =
     (let i = Suc k;
          j = floor_random (rnd i) (i + 1);
          aj = array ! j;
          ai = array ! i
      in shuffle rnd k (array[i := aj, j := ai]))"

definition permutation :: "(nat \<Rightarrow> real) \<Rightarrow> nat \<Rightarrow> nat list" where
  "permutation rnd n = shuffle rnd (n - 1) (map (\<lambda>i. i) [0..<n])"

section \<open>The store\<close>

text \<open>
  The Redis keys the module uses, as its header comment lays them out:
  \<open>player:<name>\<close> (a string with an expiry time), \<open>scores\<close> (a sorted set),
  \<open>coins\<close> (a hash) and \<open>usednames\<close> (a set). \<open>clock\<close> is the store's time in
  seconds. The commands of one call run in the order the call issues them, and every
  command is answered without an error (\<open>err\<close> is \<open>null\<close> in each callback).
\<close>

record store =
  clock :: nat
  player_keys :: "(string \<times> point \<times> nat) list"
  scores_key :: "(string \<times> int) list"
  coins_key :: "(point \<times> int) list"
  usednames_key :: "string set"

definition empty_store :: store where
  "empty_store = \<lparr>clock = 0, player_keys = [], scores_key = [], coins_key = [], usednames_key = {}\<rparr>"

text \<open>Time passing: a key is readable up to its expiry time and gone for every read
  after it.\<close>

definition advance :: "nat \<Rightarrow> store \<Rightarrow> store" where
  "advance dt s = s\<lparr>clock := clock s + dt\<rparr>"

definition live :: "store \<Rightarrow> string \<times> point \<times> nat \<Rightarrow> bool" where
  "live s e = (clock s \<le> snd (snd e))"

text \<open>The names with a live \<open>player:<name>\<close> key.\<close>

definition registered :: "store \<Rightarrow> string set" where
  "registered s = fst ` set (filter (live s) (player_keys s))"

definition get_key :: "string \<Rightarrow> store \<Rightarrow> point option" where
  "get_key name s =
     (case map_of (player_keys s) name of
        None \<Rightarrow> None
      | Some (p, deadline) \<Rightarrow> if clock s \<le> deadline then Some p else None)"

definition setex :: "string \<Rightarrow> nat \<Rightarrow> point \<Rightarrow> store \<Rightarrow> store" where
  "setex name ttl p s = s\<lparr>player_keys := AList.update name (p, clock s + ttl) (player_keys s)\<rparr>"

definition sismember :: "string \<Rightarrow> store \<Rightarrow> int" where
  "sismember name s = (if name \<in> usednames_key s then 1 else 0)"

definition sadd :: "string \<Rightarrow> store \<Rightarrow> store" where
  "sadd name s = s\<lparr>usednames_key := insert name (usednames_key s)\<rparr>"

definition zadd :: "int \<Rightarrow> string \<Rightarrow> store \<Rightarrow> store" where
  "zadd v name s = s\<lparr>scores_key := AList.update name v (scores_key s)\<rparr>"

definition zscore :: "string \<Rightarrow> store \<Rightarrow> int option" where
  "zscore name s = map_of (scores_key s) name"

text \<open>\<open>ZINCRBY\<close> adds to the member's score, taking a missing member's score as 0.\<close>

definition zincrby :: "int \<Rightarrow> string \<Rightarrow> store \<Rightarrow> store" where
  "zincrby v name s =
     s\<lparr>scores_key :=
         AList.update name ((case zscore name s of None \<Rightarrow> 0 | Some old \<Rightarrow> old) + v) (scores_key s)\<rparr>"

text \<open>
  \<open>ZREVRANGE scores 0 -1 WITHSCORES\<close>: the members from the highest score to the
  lowest, equal scores in descending order of the member, as a flat array of member,
  score, member, score, ...
\<close>

datatype zitem = Member string | Score int

fun withscores :: "(string \<times> int) list \<Rightarrow> zitem list" where
  "withscores [] = []"
| "withscores ((name, v) # rest) = Member name # Score v # withscores rest"

definition zrevrange :: "store \<Rightarrow> zitem list" where
  "zrevrange s = withscores (rev (sort_key (\<lambda>(name, v). (v, name)) (scores_key s)))"

definition hset :: "point \<Rightarrow> int \<Rightarrow> store \<Rightarrow> store" where
  "hset field v s = s\<lparr>coins_key := AList.update field v (coins_key s)\<rparr>"

definition hget :: "point \<Rightarrow> store \<Rightarrow> int option" where
  "hget field s = map_of (coins_key s) field"

definition hdel :: "point \<Rightarrow> store \<Rightarrow> store" where
  "hdel field s = s\<lparr>coins_key := AList.delete field (coins_key s)\<rparr>"

text \<open>
  The client turns the reply of \<open>HGETALL\<close> into an object with one property per field,
  and the reply for a hash with no field into \<open>null\<close>.
\<close>

datatype reply = Null | Obj "(point \<times> int) list"

definition hgetall :: "store \<Rightarrow> reply" where
  "hgetall s = (if coins_key s = [] then Null else Obj (coins_key s))"

text \<open>
  \<open>coinList.length\<close> on such an object: its own properties are the fields
  \<open>"row,col"\<close>, none of them is \<open>length\<close>, and \<open>Object.prototype\<close> has no \<open>length\<close>,
  so the read gives \<open>undefined\<close> (\<open>None\<close>).
\<close>

definition length_property :: "(point \<times> int) list \<Rightarrow> int option" where
  "length_property coinList = None"

text \<open>
  \<open>MGET\<close> on keys \<open>player:<name>\<close>: the value of each key, \<open>null\<close> for a key that
  is gone.
\<close>

definition mget :: "string list \<Rightarrow> store \<Rightarrow> point option list" where
  "mget matches s = map (\<lambda>key. get_key (drop 7 key) s) matches"

text \<open>
  \<open>scanValues('player:*')\<close>. Every round calls \<open>client.scan('0', 'MATCH', pattern)\<close>:
  the cursor of the reply is never passed back. What \<open>SCAN\<close> answers is a parameter of
  the model: \<open>replies k\<close> is the reply to the \<open>k\<close>-th call, its cursor and its page of
  matching keys. The result is the value the promise is first resolved with, and
  \<open>None\<close> when the rounds go on for ever without a \<open>resolve\<close>. A round with an empty page
  resolves before its \<open>mget\<close>; whatever follows finds the promise settled.
\<close>

partial_function (option) scanHelper ::
  "(nat \<Rightarrow> string \<times> string list) \<Rightarrow> store \<Rightarrow> nat \<Rightarrow> string list \<Rightarrow> point option list
     \<Rightarrow> (string list \<times> point option list) option" where
  "scanHelper replies s k keys vals =
     (case replies k of
        (cursor, matches) \<Rightarrow>
          if length matches = 0 then Some (keys @ matches, vals)
          else if cursor = ''0'' then Some (keys @ matches, vals @ mget matches s)
          else scanHelper replies s (Suc k) (keys @ matches) (vals @ mget matches s))"

definition scanValues ::
  "(nat \<Rightarrow> string \<times> string list) \<Rightarrow> store \<Rightarrow> (string list \<times> point option list) option" where
  "scanValues replies s = scanHelper replies s 0 [] []"

text \<open>
  What \<open>SCAN\<close> can answer on a store that does not change during the call: a page holds
  keys of live players only, and a reply with cursor \<open>'0'\<close> ends a full pass, so its
  page holds them all.
\<close>

definition player_key :: "string \<Rightarrow> string" where
  "player_key name = ''player:'' @ name"

definition scan_replies :: "store \<Rightarrow> (nat \<Rightarrow> string \<times> string list) \<Rightarrow> bool" where
  "scan_replies s replies =
     (\<forall>k. set (snd (replies k)) \<subseteq> player_key ` registered s
        \<and> (fst (replies k) = ''0'' \<longrightarrow> set (snd (replies k)) = player_key ` registered s))"

section \<open>game\<close>

definition WIDTH :: nat where "WIDTH = 64"
definition HEIGHT :: nat where "HEIGHT = 64"
definition MAX_PLAYER_NAME_LENGTH :: nat where "MAX_PLAYER_NAME_LENGTH = 32"
definition NUM_COINS :: nat where "NUM_COINS = 100"

text \<open>The result of a call: the store after it, the promise it returned, and an
  exception thrown inside a callback, which no caller receives.\<close>

record 'a outcome =
  db :: store
  settled :: "'a promise"
  uncaught :: "exn option"

text \<open>
  \<open>addPlayer\<close>: after \<open>resolve(false)\<close> the callback goes on (there is no
  \<open>return\<close>), so the three writes and \<open>resolve(true)\<close> follow in every case.
\<close>

definition addPlayer :: "real \<Rightarrow> real \<Rightarrow> string \<Rightarrow> store \<Rightarrow> bool outcome" where
  "addPlayer u1 u2 name s =
     (let isMember = sismember name s;
          p1 = (if length name = 0 \<or> length name > MAX_PLAYER_NAME_LENGTH \<or> isMember = 1
                then resolve False Pending else Pending);
          s1 = sadd name s;
          (x, y) = randomPoint WIDTH HEIGHT u1 u2;
          s2 = setex name 300 (Num x, Num y) s1;
          s3 = zadd 0 name s2
      in \<lparr>db = s3, settled = resolve True p1, uncaught = None\<rparr>)"

definition coinValue :: "nat \<Rightarrow> int" where
  "coinValue i = (if i < 50 then 1 else if i < 75 then 2 else if i < 95 then 5 else 10)"

definition coinIndex :: "nat \<Rightarrow> point" where
  "coinIndex position = (Num (int (position div WIDTH)), Num (int (position mod WIDTH)))"

definition placeCoins :: "(nat \<Rightarrow> real) \<Rightarrow> store \<Rightarrow> store" where
  "placeCoins rnd s =
     foldl (\<lambda>s' (position, i). hset (coinIndex position) (coinValue i) s') s
       (zip (take NUM_COINS (permutation rnd (WIDTH * HEIGHT))) [0..<NUM_COINS])"

text \<open>
  \<open>state\<close>. Its promise is resolved when the three reads are done, and stays pending
  when \<open>scanValues\<close> never resolves. \<open>playerValues[index]\<close> is \<open>undefined\<close> past the end
  of the array (\<open>None\<close>, as \<open>null\<close>). The loop over the flat array of \<open>ZREVRANGE\<close>,
  \<open>for (let i = 0; i < playerScores.length - 1; i += 2)\<close>, pairs each member with the
  item after it.
\<close>

fun pairs :: "zitem list \<Rightarrow> (zitem \<times> zitem) list" where
  "pairs (a # b # rest) = (a, b) # pairs rest"
| "pairs _ = []"

definition element :: "point option list \<Rightarrow> nat \<Rightarrow> point option" where
  "element playerValues index = (if index < length playerValues then playerValues ! index else None)"

record snapshot =
  positions :: "(string \<times> point option) list"
  scores :: "(zitem \<times> zitem) list"
  coins :: reply

definition state :: "(nat \<Rightarrow> string \<times> string list) \<Rightarrow> store \<Rightarrow> snapshot promise" where
  "state replies s =
     (case scanValues replies s of
        None \<Rightarrow> Pending
      | Some (playerKeys, playerValues) \<Rightarrow>
          resolve
            \<lparr>positions = map (\<lambda>(index, playerKey). (drop 7 playerKey, element playerValues index))
                           (enumerate 0 playerKeys),
             scores = pairs (zrevrange s),
             coins = hgetall s\<rparr>
            Pending)"

text \<open>
  \<open>{ U: [0, -1], R: [1, 0], D: [0, 1], L: [-1, 0] }[direction]\<close>: a property read on
  an object literal. It finds the four own properties and, for any other name, what
  the object inherits from \<open>Object.prototype\<close>: a function (or, for \<open>__proto__\<close>, the
  prototype object), which is truthy and has no element \<open>0\<close> or \<open>1\<close>.
\<close>

datatype jsval = Undefined | Arr int int | Inherited

definition Object_prototype :: "string list" where
  "Object_prototype =
     [''constructor'', ''toString'', ''toLocaleString'', ''valueOf'', ''hasOwnProperty'',
      ''isPrototypeOf'', ''propertyIsEnumerable'', ''__proto__'', ''__defineGetter__'',
      ''__defineSetter__'', ''__lookupGetter__'', ''__lookupSetter__'']"

definition delta_of :: "string \<Rightarrow> jsval" where
  "delta_of direction =
     (if direction = ''U'' then Arr 0 (- 1)
      else if direction = ''R'' then Arr 1 0
      else if direction = ''D'' then Arr 0 1
      else if direction = ''L'' then Arr (- 1) 0
      else if direction \<in> set Object_prototype then Inherited
      else Undefined)"

fun truthy :: "jsval \<Rightarrow> bool" where
  "truthy Undefined = False"
| "truthy _ = True"

text \<open>\<open>delta[0]\<close> and \<open>delta[1]\<close> as operands of \<open>+\<close>: \<open>undefined\<close> becomes \<open>NaN\<close>.\<close>

fun delta0 :: "jsval \<Rightarrow> jsnum" where
  "delta0 (Arr a b) = Num a"
| "delta0 _ = NaN"

fun delta1 :: "jsval \<Rightarrow> jsnum" where
  "delta1 (Arr a b) = Num b"
| "delta1 _ = NaN"

text \<open>
  \<open>move\<close>. \<open>client.get\<close> answers \<open>null\<close> for a key that is absent or expired, and
  \<open>playerPosition.split\<close> then throws; \<open>coinList.length\<close> throws when the reply of
  \<open>hgetall\<close> is \<open>null\<close>. A coin's value is a non-empty string, so \<open>if (value)\<close> holds
  whenever the field exists.
\<close>

definition move :: "(nat \<Rightarrow> real) \<Rightarrow> string \<Rightarrow> string \<Rightarrow> store \<Rightarrow> unit outcome" where
  "move rnd direction name s =
     (let delta = delta_of direction in
      if truthy delta then
        (case get_key name s of
           None \<Rightarrow> \<lparr>db = s, settled = Pending, uncaught = Some TypeError\<rparr>
         | Some (x, y) \<Rightarrow>
             (let newX = clamp (js_add x (delta0 delta)) (Num 0) (Num (int WIDTH - 1));
                  newY = clamp (js_add y (delta1 delta)) (Num 0) (Num (int HEIGHT - 1));
                  s1 = (case hget (newX, newY) s of
                          None \<Rightarrow> s
                        | Some v \<Rightarrow> hdel (newX, newY) (zincrby v name s));
                  s2 = setex name 300 (newX, newY) s1
              in (case hgetall s2 of
                    Null \<Rightarrow> \<lparr>db = s2, settled = Pending, uncaught = Some TypeError\<rparr>
                  | Obj coinList \<Rightarrow>
                      \<lparr>db = (if length_property coinList = Some 0 then placeCoins rnd s2 else s2),
                       settled = resolve () Pending, uncaught = None\<rparr>)))
      else \<lparr>db = s, settled = Pending, uncaught = None\<rparr>)"

section \<open>Names for the statements\<close>

text \<open>The linear indices \<open>placeCoins\<close> uses:
  \<open>permutation(WIDTH * HEIGHT).slice(0, NUM_COINS)\<close>.\<close>

definition chosen :: "(nat \<Rightarrow> real) \<Rightarrow> nat list" where
  "chosen rnd = take NUM_COINS (permutation rnd (WIDTH * HEIGHT))"

text \<open>The members of \<open>scores\<close>.\<close>

definition leaderboard :: "store \<Rightarrow> string set" where
  "leaderboard s = fst ` set (scores_key s)"

text \<open>
  The stores the module can reach: it loads on an empty store and places the coins
  (the last line of the module), it may be loaded again on the store it left, and
  between loads it serves \<open>addPlayer\<close> and \<open>move\<close> while time passes.
\<close>

inductive reachable :: "store \<Rightarrow> bool" where
  start: "\<forall>i. 0 \<le> rnd i \<and> rnd i < 1 \<Longrightarrow> reachable (placeCoins rnd empty_store)"
| restart: "reachable s \<Longrightarrow> \<forall>i. 0 \<le> rnd i \<and> rnd i < 1 \<Longrightarrow> reachable (placeCoins rnd s)"
| add: "reachable s \<Longrightarrow> 0 \<le> u1 \<and> u1 < 1 \<Longrightarrow> 0 \<le> u2 \<and> u2 < 1 \<Longrightarrow>
        reachable (db (addPlayer u1 u2 name s))"
| mv: "reachable s \<Longrightarrow> \<forall>i. 0 \<le> rnd i \<and> rnd i < 1 \<Longrightarrow>
        reachable (db (move rnd direction name s))"
| wait: "reachable s \<Longrightarrow> reachable (advance dt s)"

text \<open>\<open>quiet name s s'\<close>: the store goes from \<open>s\<close> to \<open>s'\<close> while \<open>name\<close> is inactive:
  time passes and other players register and move.\<close>

inductive quiet :: "string \<Rightarrow> store \<Rightarrow> store \<Rightarrow> bool" for name :: string where
  still: "quiet name s s"
| others_add: "quiet name s s' \<Longrightarrow> other \<noteq> name \<Longrightarrow> 0 \<le> u1 \<and> u1 < 1 \<Longrightarrow> 0 \<le> u2 \<and> u2 < 1 \<Longrightarrow>
        quiet name s (db (addPlayer u1 u2 other s'))"
| others_move: "quiet name s s' \<Longrightarrow> other \<noteq> name \<Longrightarrow> \<forall>i. 0 \<le> rnd i \<and> rnd i < 1 \<Longrightarrow>
        quiet name s (db (move rnd direction other s'))"
| time: "quiet name s s' \<Longrightarrow> quiet name s (advance dt s')"

definition store_inv :: "store \<Rightarrow> bool" where
  "store_inv s = (distinct (map fst (player_keys s))
     \<and> fst ` set (player_keys s) \<subseteq> fst ` set (scores_key s)
     \<and> fst ` set (scores_key s) = usednames_key s
     \<and> (\<forall>e \<in> set (player_keys s). snd (snd e) \<le> clock s + 300))"

subsection \<open>Concrete inputs\<close>

text \<open>Draws of \<open>Math.random()\<close>: always 0, and always 8191/8192 (for which
  \<open>Math.floor(u * (i + 1))\<close> is \<open>i\<close> up to \<open>i = 8191\<close>, so the shuffle swaps each
  cell with itself).\<close>

definition zero_draws :: "nat \<Rightarrow> real" where
  "zero_draws i = 0"

definition hi_draws :: "nat \<Rightarrow> real" where
  "hi_draws i = 8191 / 8192"

text \<open>A store with one player, alice at \<open>(10,10)\<close> with score 5, and two coins.\<close>

definition alice_store :: store where
  "alice_store =
     \<lparr>clock = 0,
      player_keys = [(''alice'', (Num 10, Num 10), 300)],
      scores_key = [(''alice'', 5)],
      coins_key = [((Num 10, Num 9), 5), ((Num 3, Num 4), 1)],
      usednames_key = {''alice''}\<rparr>"

definition last_coin_store :: store where
  "last_coin_store = alice_store\<lparr>coins_key := [((Num 10, Num 9), 5)]\<rparr>"

text \<open>A store that still holds a coin when the module loads.\<close>

definition leftover_store :: store where
  "leftover_store = empty_store\<lparr>coins_key := [((Num 63, Num 63), 1)]\<rparr>"

text \<open>A scan answered in one page that holds the keys of the given names.\<close>

definition one_page :: "string list \<Rightarrow> nat \<Rightarrow> string \<times> string list" where
  "one_page names k = (''0'', map player_key names)"

text \<open>The store after the module loaded on an empty store and bob registered.\<close>

definition bob_joined :: store where
  "bob_joined = db (addPlayer 0 0 ''bob'' (placeCoins zero_draws empty_store))"

text \<open>301 seconds later, with nobody active; and what \<open>state\<close> then shows.\<close>

definition bob_expired :: store where
  "bob_expired = advance 301 bob_joined"

definition bob_expired_snapshot :: snapshot where
  "bob_expired_snapshot =
     \<lparr>positions = [], scores = pairs (zrevrange bob_expired), coins = hgetall bob_expired\<rparr>"

text \<open>Carol registers 200 seconds after bob, and 101 more seconds pass; and what
  \<open>state\<close> then shows.\<close>

definition carol_joined :: store where
  "carol_joined = advance 101 (db (addPlayer 0 0 ''carol'' (advance 200 bob_joined)))"

definition carol_snapshot :: snapshot where
  "carol_snapshot =
     \<lparr>positions = [(''carol'', Some (Num 0, Num 0))],
      scores = pairs (zrevrange carol_joined),
      coins = hgetall carol_joined\<rparr>"

section \<open>Evaluating the model\<close>

lemmas store_ops = get_key_def setex_def hget_def hdel_def hset_def hgetall_def zincrby_def
  zscore_def zadd_def sadd_def sismember_def

lemmas move_eval = move_def delta_of_def Object_prototype_def clamp_def length_property_def
  WIDTH_def HEIGHT_def Let_def store_ops

lemma zero_draws_valid: "\<forall>i. 0 \<le> zero_draws i \<and> zero_draws i < 1"
  by (simp add: zero_draws_def)

lemma hi_draws_valid: "\<forall>i. 0 \<le> hi_draws i \<and> hi_draws i < 1"
  by (simp add: hi_draws_def)

text \<open>A scan answered with cursor \<open>'0'\<close> at once resolves with its page.\<close>

lemma scanValues_one_page:
  assumes "fst (replies 0) = ''0''"
  shows "scanValues replies s
       = Some (snd (replies 0), if snd (replies 0) = [] then [] else mget (snd (replies 0)) s)"
proof -
  obtain cursor matches where r: "replies 0 = (cursor, matches)" by (cases "replies 0")
  have c: "cursor = ''0''" using assms r by simp
  show ?thesis
    unfolding scanValues_def
    by (subst scanHelper.simps) (simp add: r c)
qed

section \<open>The shuffle\<close>

text \<open>The shuffle only swaps cells inside the array, so its result is a rearrangement of
  \<open>0, ..., n - 1\<close>.\<close>

lemma draw_le: "0 \<le> u \<Longrightarrow> u < 1 \<Longrightarrow> floor_random u (i + 1) \<le> i"
proof -
  assume a: "0 \<le> u" "u < 1"
  have "u * real (i + 1) < real (i + 1)" using a by (simp add: mult_less_cancel_right2)
  then have "\<lfloor>u * real (i + 1)\<rfloor> < int (i + 1)" by (simp add: floor_less_iff)
  then show ?thesis by (simp add: floor_random_def)
qed

lemma shuffle_length: "length (shuffle rnd k array) = length array"
  by (induction k arbitrary: array) (simp_all add: Let_def)

lemma shuffle_mset:
  "\<forall>i. 0 \<le> rnd i \<and> rnd i < 1 \<Longrightarrow> k < length array \<Longrightarrow> mset (shuffle rnd k array) = mset array"
proof (induction k arbitrary: array)
  case 0
  then show ?case by simp
next
  case (Suc k)
  let ?j = "floor_random (rnd (Suc k)) (Suc k + 1)"
  have j: "?j \<le> Suc k" using Suc.prems(1) draw_le [of "rnd (Suc k)" "Suc k"] by simp
  have sw: "mset (array[Suc k := array ! ?j, ?j := array ! Suc k]) = mset array"
    using mset_swap [of ?j array "Suc k"] j Suc.prems(2) by simp
  have "mset (shuffle rnd (Suc k) array) = mset (array[Suc k := array ! ?j, ?j := array ! Suc k])"
    using Suc.IH [of "array[Suc k := array ! ?j, ?j := array ! Suc k]"] Suc.prems
    by (simp add: Let_def)
  then show ?case using sw by simp
qed

lemma permutation_mset:
  "\<forall>i. 0 \<le> rnd i \<and> rnd i < 1 \<Longrightarrow> mset (permutation rnd n) = mset [0..<n]"
proof (cases n)
  case 0
  then show ?thesis by (simp add: permutation_def)
next
  case (Suc m)
  assume "\<forall>i. 0 \<le> rnd i \<and> rnd i < 1"
  then show ?thesis using shuffle_mset [of rnd m "[0..<n]"] Suc by (simp add: permutation_def)
qed

lemma permutation_distinct:
  "\<forall>i. 0 \<le> rnd i \<and> rnd i < 1 \<Longrightarrow> distinct (permutation rnd n)"
  using permutation_mset [of rnd n] by (metis distinct_upt mset_eq_imp_distinct_iff)

lemma permutation_set:
  "\<forall>i. 0 \<le> rnd i \<and> rnd i < 1 \<Longrightarrow> set (permutation rnd n) = {0..<n}"
  using permutation_mset [of rnd n] by (metis mset_eq_setD atLeastLessThan_upt)

lemma permutation_length: "length (permutation rnd n) = n"
  by (simp add: permutation_def shuffle_length)

text \<open>With each draw so close to 1 that \<open>j = i\<close>, every swap is of a cell with itself.\<close>

lemma hi_floor: "i \<le> 4095 \<Longrightarrow> floor_random (8191 / 8192) (i + 1) = i"
proof -
  assume a: "i \<le> 4095"
  have "\<lfloor>(8191 / 8192 :: real) * real (i + 1)\<rfloor> = int i"
  proof (rule floor_unique)
    show "of_int (int i) \<le> (8191 / 8192 :: real) * real (i + 1)" using a by simp
    show "(8191 / 8192 :: real) * real (i + 1) < of_int (int i) + 1" by simp
  qed
  then show ?thesis by (simp add: floor_random_def)
qed

lemma shuffle_id:
  "(\<forall>i \<le> k. floor_random (rnd i) (i + 1) = i) \<Longrightarrow> shuffle rnd k array = array"
  by (induction k arbitrary: array) (simp_all add: Let_def)

lemma hi_permutation: "permutation hi_draws (WIDTH * HEIGHT) = [0..<4096]"
proof -
  have "\<forall>i \<le> 4095. floor_random (hi_draws i) (i + 1) = i"
    using hi_floor by (simp add: hi_draws_def)
  then have "shuffle hi_draws 4095 [0..<4096] = [0..<4096]" by (rule shuffle_id)
  then show ?thesis by (simp add: permutation_def WIDTH_def HEIGHT_def)
qed

section \<open>Placing the coins\<close>

lemma coinIndex_inj: "coinIndex a = coinIndex b \<Longrightarrow> a = b"
proof -
  assume "coinIndex a = coinIndex b"
  then have "a div 64 = b div 64" "a mod 64 = b mod 64" by (simp_all add: coinIndex_def WIDTH_def)
  then show ?thesis by (metis div_mult_mod_eq)
qed

lemma update_fresh: "k \<notin> fst ` set al \<Longrightarrow> AList.update k v al = al @ [(k, v)]"
  by (induction al) auto

lemma foldl_hset_coins:
  "distinct (map (\<lambda>e. f (fst e)) ps) \<Longrightarrow>
   (\<forall>e \<in> set ps. f (fst e) \<notin> fst ` set (coins_key s)) \<Longrightarrow>
   coins_key (foldl (\<lambda>s' (position, i). hset (f position) (g i) s') s ps)
     = coins_key s @ map (\<lambda>(position, i). (f position, g i)) ps"
proof (induction ps arbitrary: s)
  case Nil
  then show ?case by simp
next
  case (Cons e ps)
  obtain p i where e: "e = (p, i)" by (cases e)
  let ?s1 = "hset (f p) (g i) s"
  have c1: "coins_key ?s1 = coins_key s @ [(f p, g i)]"
    using Cons.prems(2) e by (simp add: hset_def update_fresh)
  have d: "distinct (map (\<lambda>e. f (fst e)) ps)" using Cons.prems(1) by simp
  have n: "\<forall>e \<in> set ps. f (fst e) \<notin> fst ` set (coins_key ?s1)"
  proof
    fix e' assume m: "e' \<in> set ps"
    have "f (fst e') \<noteq> f p" using Cons.prems(1) e m by force
    moreover have "f (fst e') \<notin> fst ` set (coins_key s)" using Cons.prems(2) m by simp
    ultimately show "f (fst e') \<notin> fst ` set (coins_key ?s1)" using c1 by simp
  qed
  show ?case using Cons.IH [OF d n] c1 e by simp
qed

lemma foldl_hset_other:
  "clock (foldl (\<lambda>s' (position, i). hset (f position) (g i) s') s ps) = clock s
   \<and> player_keys (foldl (\<lambda>s' (position, i). hset (f position) (g i) s') s ps) = player_keys s
   \<and> scores_key (foldl (\<lambda>s' (position, i). hset (f position) (g i) s') s ps) = scores_key s
   \<and> usednames_key (foldl (\<lambda>s' (position, i). hset (f position) (g i) s') s ps) = usednames_key s"
  by (induction ps arbitrary: s) (auto simp: hset_def)

lemma placeCoins_other:
  "clock (placeCoins rnd s) = clock s" "player_keys (placeCoins rnd s) = player_keys s"
  "scores_key (placeCoins rnd s) = scores_key s" "usednames_key (placeCoins rnd s) = usednames_key s"
  by (simp_all add: placeCoins_def foldl_hset_other)

lemma foldl_hset_lookup:
  "distinct (map (\<lambda>e. f (fst e)) ps) \<Longrightarrow>
   map_of (coins_key (foldl (\<lambda>s' (position, i). hset (f position) (g i) s') s ps)) c
     = (case map_of (map (\<lambda>(position, i). (f position, g i)) ps) c of
          None \<Rightarrow> map_of (coins_key s) c
        | Some v \<Rightarrow> Some v)"
proof (induction ps arbitrary: s)
  case Nil
  then show ?case by simp
next
  case (Cons e ps)
  obtain p i where e: "e = (p, i)" by (cases e)
  have d: "distinct (map (\<lambda>e. f (fst e)) ps)" using Cons.prems by simp
  have n: "f p \<notin> fst ` set (map (\<lambda>(position, i). (f position, g i)) ps)"
    using Cons.prems e by (force simp: image_iff)
  have m: "map_of (map (\<lambda>(position, i). (f position, g i)) ps) (f p) = None"
    using n by (simp add: map_of_eq_None_iff)
  have h: "map_of (coins_key (hset (f p) (g i) s)) c = (if c = f p then Some (g i) else map_of (coins_key s) c)"
    by (simp add: hset_def update_conv')
  have "map_of (coins_key (foldl (\<lambda>s' (position, i). hset (f position) (g i) s') (hset (f p) (g i) s) ps)) c
     = (case map_of (map (\<lambda>(position, i). (f position, g i)) ps) c of
          None \<Rightarrow> (if c = f p then Some (g i) else map_of (coins_key s) c)
        | Some v \<Rightarrow> Some v)"
    unfolding Cons.IH [OF d] h ..
  then show ?case using e m by (auto split: option.splits)
qed

lemma chosen_length: "length (chosen rnd) = 100"
  by (simp add: chosen_def permutation_length NUM_COINS_def WIDTH_def HEIGHT_def)

lemma chosen_take: "chosen rnd = take 100 (permutation rnd (WIDTH * HEIGHT))"
  by (simp add: chosen_def NUM_COINS_def)

lemma chosen_nth: "i < 100 \<Longrightarrow> chosen rnd ! i = permutation rnd (WIDTH * HEIGHT) ! i"
  by (simp add: chosen_take)

lemma chosen_distinct: "\<forall>i. 0 \<le> rnd i \<and> rnd i < 1 \<Longrightarrow> distinct (chosen rnd)"
  unfolding chosen_def using permutation_distinct [of rnd "WIDTH * HEIGHT"] by simp

lemma chosen_range: "\<forall>i. 0 \<le> rnd i \<and> rnd i < 1 \<Longrightarrow> set (chosen rnd) \<subseteq> {0..<WIDTH * HEIGHT}"
  unfolding chosen_def using permutation_set [of rnd "WIDTH * HEIGHT"] set_take_subset by fastforce

lemma chosen_cells_distinct:
  "\<forall>i. 0 \<le> rnd i \<and> rnd i < 1 \<Longrightarrow> distinct (map coinIndex (chosen rnd))"
  using chosen_distinct [of rnd] by (simp add: distinct_map inj_on_def coinIndex_inj)

lemma placeCoins_unfold:
  "placeCoins rnd s =
     foldl (\<lambda>s' (position, i). hset (coinIndex position) (coinValue i) s') s (zip (chosen rnd) [0..<100])"
  by (simp add: placeCoins_def chosen_def NUM_COINS_def)

lemma zip_chosen_fst: "map fst (zip (chosen rnd) [0..<100]) = chosen rnd"
  by (simp add: chosen_length)

lemma zip_chosen_snd: "map snd (zip (chosen rnd) [0..<100]) = [0..<100]"
  by (simp add: chosen_length)

lemma placed_pairs_fst:
  "map fst (map (\<lambda>(position, i). (coinIndex position, coinValue i)) (zip (chosen rnd) [0..<100]))
     = map coinIndex (chosen rnd)"
proof -
  have "map fst (map (\<lambda>(position, i). (coinIndex position, coinValue i)) (zip (chosen rnd) [0..<100]))
        = map coinIndex (map fst (zip (chosen rnd) [0..<100]))"
    by (simp add: case_prod_unfold)
  then show ?thesis by (simp only: zip_chosen_fst)
qed

lemma placed_pairs_snd:
  "map snd (map (\<lambda>(position, i). (coinIndex position, coinValue i)) (zip (chosen rnd) [0..<100]))
     = map coinValue [0..<100]"
proof -
  have "map snd (map (\<lambda>(position, i). (coinIndex position, coinValue i)) (zip (chosen rnd) [0..<100]))
        = map coinValue (map snd (zip (chosen rnd) [0..<100]))"
    by (simp add: case_prod_unfold)
  then show ?thesis by (simp only: zip_chosen_snd)
qed

lemma placed_pairs_zip:
  "map (\<lambda>(position, i). (coinIndex position, coinValue i)) (zip (chosen rnd) [0..<100])
     = zip (map coinIndex (chosen rnd)) (map coinValue [0..<100])"
  by (simp add: zip_map_map)

lemma placeCoins_append:
  assumes "\<forall>i. 0 \<le> rnd i \<and> rnd i < 1"
    and "\<forall>p \<in> set (chosen rnd). coinIndex p \<notin> fst ` set (coins_key s)"
  shows "coins_key (placeCoins rnd s)
     = coins_key s @ map (\<lambda>(position, i). (coinIndex position, coinValue i)) (zip (chosen rnd) [0..<100])"
proof -
  have d: "distinct (map (\<lambda>e. coinIndex (fst e)) (zip (chosen rnd) [0..<100]))"
  proof -
    have "map (\<lambda>e. coinIndex (fst e)) (zip (chosen rnd) [0..<100])
          = map coinIndex (map fst (zip (chosen rnd) [0..<100]))" by simp
    then show ?thesis using chosen_cells_distinct [OF assms(1)] by (simp only: zip_chosen_fst)
  qed
  have n: "\<forall>e \<in> set (zip (chosen rnd) [0..<100]). coinIndex (fst e) \<notin> fst ` set (coins_key s)"
  proof
    fix e assume "e \<in> set (zip (chosen rnd) [0..<100])"
    then have "(fst e, snd e) \<in> set (zip (chosen rnd) [0..<100])" by simp
    then have "fst e \<in> set (chosen rnd)" by (rule set_zip_leftD)
    then show "coinIndex (fst e) \<notin> fst ` set (coins_key s)" using assms(2) by blast
  qed
  show ?thesis unfolding placeCoins_unfold using foldl_hset_coins [OF d n] .
qed

lemma placeCoins_lookup:
  assumes "\<forall>i. 0 \<le> rnd i \<and> rnd i < 1"
  shows "hget c (placeCoins rnd s)
     = (case map_of (zip (map coinIndex (chosen rnd)) (map coinValue [0..<100])) c of
          None \<Rightarrow> hget c s
        | Some v \<Rightarrow> Some v)"
proof -
  have d: "distinct (map (\<lambda>e. coinIndex (fst e)) (zip (chosen rnd) [0..<100]))"
  proof -
    have "map (\<lambda>e. coinIndex (fst e)) (zip (chosen rnd) [0..<100])
          = map coinIndex (map fst (zip (chosen rnd) [0..<100]))" by simp
    then show ?thesis using chosen_cells_distinct [OF assms] by (simp only: zip_chosen_fst)
  qed
  show ?thesis
    unfolding hget_def placeCoins_unfold foldl_hset_lookup [OF d] placed_pairs_zip ..
qed

lemma placeCoins_chosen_cell:
  assumes "\<forall>i. 0 \<le> rnd i \<and> rnd i < 1" and "i < 100"
  shows "hget (coinIndex (chosen rnd ! i)) (placeCoins rnd s) = Some (coinValue i)"
proof -
  have "map_of (zip (map coinIndex (chosen rnd)) (map coinValue [0..<100]))
          (map coinIndex (chosen rnd) ! i) = Some (map coinValue [0..<100] ! i)"
    by (rule map_of_zip_nth)
       (simp_all add: chosen_length chosen_cells_distinct [OF assms(1)] assms(2))
  then show ?thesis
    unfolding placeCoins_lookup [OF assms(1)] using assms(2) by (simp add: chosen_length)
qed

lemma placeCoins_other_cell:
  assumes "\<forall>i. 0 \<le> rnd i \<and> rnd i < 1" and "c \<notin> coinIndex ` set (chosen rnd)"
  shows "hget c (placeCoins rnd s) = hget c s"
proof -
  have "map_of (zip (map coinIndex (chosen rnd)) (map coinValue [0..<100])) c = None"
    using assms(2) by (simp add: map_of_zip_is_None chosen_length)
  then show ?thesis unfolding placeCoins_lookup [OF assms(1)] by simp
qed

lemma count_by_value:
  "length (filter (\<lambda>c. snd c = v) cs) = length (filter (\<lambda>x. x = v) (map snd cs))"
  by (induction cs) simp_all

lemma tier_counts_map:
  "length (filter (\<lambda>x. x = 1) (map coinValue [0..<100])) = 50"
  "length (filter (\<lambda>x. x = 2) (map coinValue [0..<100])) = 25"
  "length (filter (\<lambda>x. x = 5) (map coinValue [0..<100])) = 20"
  "length (filter (\<lambda>x. x = 10) (map coinValue [0..<100])) = 5"
  by code_simp+

lemma hi_chosen: "chosen hi_draws = [0..<100]"
  by (simp add: chosen_def hi_permutation NUM_COINS_def)

lemma low_index_cell: "p < 100 \<Longrightarrow> coinIndex p \<noteq> (Num 63, Num 63)"
  by (simp add: coinIndex_def WIDTH_def)

text \<open>C3, as the code has it. \<open>placeCoins\<close> takes the first 100 indices of the permutation,
  which are distinct and below \<open>WIDTH * HEIGHT\<close>, and writes the cell
  \<open>(idx div WIDTH, idx mod WIDTH)\<close> of the \<open>i\<close>-th index with the value of its tier; the
  cells are distinct. Every other field of the coin hash keeps what it held: no prior
  coin is removed. When the coin hash was empty, exactly 100 coins exist afterwards, each
  at a distinct cell, 50 worth 1, 25 worth 2, 20 worth 5 and 5 worth 10.\<close>

theorem placeCoins_writes_hundred_cells:
  assumes "\<forall>i. 0 \<le> rnd i \<and> rnd i < 1"
  shows "length (take 100 (permutation rnd (WIDTH * HEIGHT))) = 100
    \<and> distinct (take 100 (permutation rnd (WIDTH * HEIGHT)))
    \<and> set (take 100 (permutation rnd (WIDTH * HEIGHT))) \<subseteq> {0..<WIDTH * HEIGHT}
    \<and> distinct (map coinIndex (take 100 (permutation rnd (WIDTH * HEIGHT))))
    \<and> (\<forall>i<100. hget (Num (int (permutation rnd (WIDTH * HEIGHT) ! i div WIDTH)),
                       Num (int (permutation rnd (WIDTH * HEIGHT) ! i mod WIDTH)))
                  (placeCoins rnd s) = Some (coinValue i))
    \<and> (\<forall>c. c \<notin> coinIndex ` set (take 100 (permutation rnd (WIDTH * HEIGHT))) \<longrightarrow>
            hget c (placeCoins rnd s) = hget c s)
    \<and> (coins_key s = [] \<longrightarrow>
          length (coins_key (placeCoins rnd s)) = 100
        \<and> distinct (map fst (coins_key (placeCoins rnd s)))
        \<and> length (filter (\<lambda>c. snd c = 1) (coins_key (placeCoins rnd s))) = 50
        \<and> length (filter (\<lambda>c. snd c = 2) (coins_key (placeCoins rnd s))) = 25
        \<and> length (filter (\<lambda>c. snd c = 5) (coins_key (placeCoins rnd s))) = 20
        \<and> length (filter (\<lambda>c. snd c = 10) (coins_key (placeCoins rnd s))) = 5
        \<and> map fst (coins_key (placeCoins rnd s))
            = map (\<lambda>idx. (Num (int (idx div WIDTH)), Num (int (idx mod WIDTH))))
                (take 100 (permutation rnd (WIDTH * HEIGHT))))"
proof -
  let ?cs = "coins_key (placeCoins rnd s)"
  have p1: "length (take 100 (permutation rnd (WIDTH * HEIGHT))) = 100"
    using chosen_length [of rnd] unfolding chosen_take .
  have p2: "distinct (take 100 (permutation rnd (WIDTH * HEIGHT)))"
    using chosen_distinct [OF assms] unfolding chosen_take .
  have p3: "set (take 100 (permutation rnd (WIDTH * HEIGHT))) \<subseteq> {0..<WIDTH * HEIGHT}"
    using chosen_range [OF assms] unfolding chosen_take .
  have p4: "distinct (map coinIndex (take 100 (permutation rnd (WIDTH * HEIGHT))))"
    using chosen_cells_distinct [OF assms] unfolding chosen_take .
  have p5: "\<forall>i<100. hget (Num (int (permutation rnd (WIDTH * HEIGHT) ! i div WIDTH)),
                       Num (int (permutation rnd (WIDTH * HEIGHT) ! i mod WIDTH)))
                  (placeCoins rnd s) = Some (coinValue i)"
  proof (intro allI impI)
    fix i :: nat assume i: "i < 100"
    show "hget (Num (int (permutation rnd (WIDTH * HEIGHT) ! i div WIDTH)),
               Num (int (permutation rnd (WIDTH * HEIGHT) ! i mod WIDTH)))
            (placeCoins rnd s) = Some (coinValue i)"
      using placeCoins_chosen_cell [OF assms i, of s] unfolding chosen_nth [OF i] coinIndex_def .
  qed
  have p6: "\<forall>c. c \<notin> coinIndex ` set (take 100 (permutation rnd (WIDTH * HEIGHT))) \<longrightarrow>
            hget c (placeCoins rnd s) = hget c s"
    using placeCoins_other_cell [OF assms, of _ s] unfolding chosen_take by blast
  have p7: "coins_key s = [] \<longrightarrow>
          length ?cs = 100
        \<and> distinct (map fst ?cs)
        \<and> length (filter (\<lambda>c. snd c = 1) ?cs) = 50
        \<and> length (filter (\<lambda>c. snd c = 2) ?cs) = 25
        \<and> length (filter (\<lambda>c. snd c = 5) ?cs) = 20
        \<and> length (filter (\<lambda>c. snd c = 10) ?cs) = 5
        \<and> map fst ?cs
            = map (\<lambda>idx. (Num (int (idx div WIDTH)), Num (int (idx mod WIDTH))))
                (take 100 (permutation rnd (WIDTH * HEIGHT)))"
  proof
    assume e: "coins_key s = []"
    have cs: "?cs = map (\<lambda>(position, i). (coinIndex position, coinValue i)) (zip (chosen rnd) [0..<100])"
      using placeCoins_append [OF assms, of s] e by simp
    have f: "map fst ?cs = map coinIndex (chosen rnd)" unfolding cs by (rule placed_pairs_fst)
    have v: "map snd ?cs = map coinValue [0..<100]" unfolding cs by (rule placed_pairs_snd)
    have l: "length ?cs = 100" unfolding cs by (simp add: chosen_length)
    have d: "distinct (map fst ?cs)" unfolding f by (rule chosen_cells_distinct [OF assms])
    have c1: "length (filter (\<lambda>c. snd c = 1) ?cs) = 50"
      unfolding count_by_value v by (rule tier_counts_map)
    have c2: "length (filter (\<lambda>c. snd c = 2) ?cs) = 25"
      unfolding count_by_value v by (rule tier_counts_map)
    have c5: "length (filter (\<lambda>c. snd c = 5) ?cs) = 20"
      unfolding count_by_value v by (rule tier_counts_map)
    have c10: "length (filter (\<lambda>c. snd c = 10) ?cs) = 5"
      unfolding count_by_value v by (rule tier_counts_map)
    have r: "map fst ?cs = map (\<lambda>idx. (Num (int (idx div WIDTH)), Num (int (idx mod WIDTH))))
              (take 100 (permutation rnd (WIDTH * HEIGHT)))"
      unfolding f chosen_take by (simp add: coinIndex_def)
    show "length ?cs = 100
        \<and> distinct (map fst ?cs)
        \<and> length (filter (\<lambda>c. snd c = 1) ?cs) = 50
        \<and> length (filter (\<lambda>c. snd c = 2) ?cs) = 25
        \<and> length (filter (\<lambda>c. snd c = 5) ?cs) = 20
        \<and> length (filter (\<lambda>c. snd c = 10) ?cs) = 5
        \<and> map fst ?cs
            = map (\<lambda>idx. (Num (int (idx div WIDTH)), Num (int (idx mod WIDTH))))
                (take 100 (permutation rnd (WIDTH * HEIGHT)))"
      by (rule conjI [OF l conjI [OF d conjI [OF c1 conjI [OF c2 conjI [OF c5 conjI [OF c10 r]]]]]])
  qed
  show ?thesis
    by (rule conjI [OF p1 conjI [OF p2 conjI [OF p3 conjI [OF p4 conjI [OF p5 conjI [OF p6 p7]]]]]])
qed

text \<open>The theorem at draws that are all 0, on the empty store.\<close>

theorem placeCoins_writes_hundred_cells_witness:
  "(\<forall>i. 0 \<le> zero_draws i \<and> zero_draws i < 1)
   \<and> coins_key empty_store = []
   \<and> length (coins_key (placeCoins zero_draws empty_store)) = 100
   \<and> length (filter (\<lambda>c. snd c = 1) (coins_key (placeCoins zero_draws empty_store))) = 50
   \<and> length (filter (\<lambda>c. snd c = 10) (coins_key (placeCoins zero_draws empty_store))) = 5
   \<and> distinct (map fst (coins_key (placeCoins zero_draws empty_store)))"
proof -
  have e: "coins_key empty_store = []" by (simp add: empty_store_def)
  note t = placeCoins_writes_hundred_cells [OF zero_draws_valid, of empty_store]
  note u = t [THEN conjunct2, THEN conjunct2, THEN conjunct2, THEN conjunct2, THEN conjunct2,
      THEN conjunct2, THEN mp, OF e]
  note n1 = u [THEN conjunct1]
  note n2 = u [THEN conjunct2, THEN conjunct1]
  note n3 = u [THEN conjunct2, THEN conjunct2, THEN conjunct1]
  note n6 = u [THEN conjunct2, THEN conjunct2, THEN conjunct2, THEN conjunct2, THEN conjunct2,
      THEN conjunct1]
  show ?thesis
    by (rule conjI [OF zero_draws_valid conjI [OF e conjI [OF n1 conjI [OF n3 conjI [OF n6 n2]]]]])
qed

text \<open>C3 as stated, "regardless of the prior coin set (which it overwrites)", fails: on a
  store that holds one coin at \<open>(63,63)\<close>, with draws for which the chosen indices are
  \<open>0, ..., 99\<close>, 101 coins exist after \<open>placeCoins\<close>, the prior coin among them.\<close>

theorem placeCoins_keeps_prior_coins:
  "length (coins_key leftover_store) = 1
   \<and> length (coins_key (placeCoins hi_draws leftover_store)) = 101
   \<and> hget (Num 63, Num 63) (placeCoins hi_draws leftover_store) = Some 1"
proof -
  have n: "\<forall>p \<in> set (chosen hi_draws). coinIndex p \<notin> fst ` set (coins_key leftover_store)"
    using low_index_cell by (simp add: hi_chosen leftover_store_def)
  have cs: "coins_key (placeCoins hi_draws leftover_store)
     = coins_key leftover_store
       @ map (\<lambda>(position, i). (coinIndex position, coinValue i)) (zip (chosen hi_draws) [0..<100])"
    by (rule placeCoins_append [OF hi_draws_valid n])
  have l: "length (coins_key (placeCoins hi_draws leftover_store)) = 101"
    unfolding cs by (simp add: chosen_length leftover_store_def)
  have h: "hget (Num 63, Num 63) (placeCoins hi_draws leftover_store) = Some 1"
    unfolding hget_def cs by (simp add: leftover_store_def)
  show ?thesis using l h by (simp add: leftover_store_def)
qed

section \<open>Registration\<close>

lemma addPlayer_db:
  "db (addPlayer u1 u2 name s)
     = zadd 0 name (setex name 300 (Num \<lfloor>u1 * 64\<rfloor>, Num \<lfloor>u2 * 64\<rfloor>) (sadd name s))"
  by (simp add: addPlayer_def randomPoint_def WIDTH_def HEIGHT_def Let_def)

lemma used_name_rejected:
  "name \<in> usednames_key s \<Longrightarrow> settled (addPlayer u1 u2 name s) = Resolved False"
  by (simp add: addPlayer_def sismember_def Let_def split: prod.splits)

text \<open>C6: a name of length 0 or of more than 32 characters is answered \<open>false\<close>:
  \<open>resolve(false)\<close> settles the promise, and the later \<open>resolve(true)\<close> changes nothing.\<close>

theorem addPlayer_invalid_name_false:
  "length name = 0 \<or> length name > 32 \<Longrightarrow> settled (addPlayer u1 u2 name s) = Resolved False"
  by (auto simp: addPlayer_def MAX_PLAYER_NAME_LENGTH_def Let_def split: prod.splits)

text \<open>The theorem at the empty name and at a name of 33 characters.\<close>

theorem addPlayer_invalid_name_false_witness:
  "(length [] = 0 \<or> length [] > 32)
   \<and> settled (addPlayer 0 0 [] empty_store) = Resolved False
   \<and> (length ''abcdefghijklmnopqrstuvwxyz0123456'' = 0 \<or> length ''abcdefghijklmnopqrstuvwxyz0123456'' > 32)
   \<and> settled (addPlayer 0 0 ''abcdefghijklmnopqrstuvwxyz0123456'' empty_store) = Resolved False"
  using addPlayer_invalid_name_false [of "[]" 0 0 empty_store]
    addPlayer_invalid_name_false [of "''abcdefghijklmnopqrstuvwxyz0123456''" 0 0 empty_store]
  by simp

text \<open>C5 fails on the code. A rejected call is answered \<open>false\<close> and still runs
  \<open>sadd\<close>, \<open>setex\<close> and \<open>zadd\<close>: registering alice again resets her score from 5 to 0
  and her position from \<open>(10,10)\<close> to the new random point, and the rejected empty name
  is entered into the used names, the player keys and the scores.\<close>

theorem addPlayer_rejected_still_writes:
  "settled (addPlayer 0 0 ''alice'' alice_store) = Resolved False
   \<and> zscore ''alice'' alice_store = Some 5
   \<and> zscore ''alice'' (db (addPlayer 0 0 ''alice'' alice_store)) = Some 0
   \<and> get_key ''alice'' alice_store = Some (Num 10, Num 10)
   \<and> get_key ''alice'' (db (addPlayer 0 0 ''alice'' alice_store)) = Some (Num 0, Num 0)
   \<and> settled (addPlayer 0 0 [] empty_store) = Resolved False
   \<and> usednames_key (db (addPlayer 0 0 [] empty_store)) = {[]}
   \<and> zscore [] (db (addPlayer 0 0 [] empty_store)) = Some 0
   \<and> get_key [] (db (addPlayer 0 0 [] empty_store)) = Some (Num 0, Num 0)"
  by (simp add: addPlayer_def randomPoint_def Let_def store_ops alice_store_def empty_store_def
      MAX_PLAYER_NAME_LENGTH_def WIDTH_def HEIGHT_def)

section \<open>Moving\<close>

lemma get_key_setex: "get_key name (setex name 300 p s) = Some p"
  by (simp add: get_key_def setex_def update_conv')

lemma move_db:
  assumes "truthy (delta_of direction)" and "get_key name s = Some (x, y)"
  shows "db (move rnd direction name s) =
     setex name 300
       (clamp (js_add x (delta0 (delta_of direction))) (Num 0) (Num 63),
        clamp (js_add y (delta1 (delta_of direction))) (Num 0) (Num 63))
       (case hget (clamp (js_add x (delta0 (delta_of direction))) (Num 0) (Num 63),
                   clamp (js_add y (delta1 (delta_of direction))) (Num 0) (Num 63)) s of
          None \<Rightarrow> s
        | Some v \<Rightarrow> hdel (clamp (js_add x (delta0 (delta_of direction))) (Num 0) (Num 63),
                        clamp (js_add y (delta1 (delta_of direction))) (Num 0) (Num 63))
                    (zincrby v name s))"
  using assms
  by (simp add: move_def Let_def length_property_def WIDTH_def HEIGHT_def split: reply.splits)

lemma alice_moves_up:
  "db (move rnd ''U'' ''alice'' alice_store) =
     \<lparr>clock = 0,
      player_keys = [(''alice'', (Num 10, Num 9), 300)],
      scores_key = [(''alice'', 10)],
      coins_key = [((Num 3, Num 4), 1)],
      usednames_key = {''alice''}\<rparr>"
  by (simp add: move_eval alice_store_def)

lemma move_never_places_coins:
  "length (coins_key (db (move rnd direction name s))) \<le> length (coins_key s)"
proof (cases "truthy (delta_of direction)")
  case False
  then show ?thesis by (simp add: move_def Let_def)
next
  case True
  show ?thesis
  proof (cases "get_key name s")
    case None
    then show ?thesis using True by (simp add: move_def Let_def)
  next
    case (Some p)
    obtain x y where p: "p = (x, y)" by (cases p)
    show ?thesis
      unfolding move_db [OF True Some [unfolded p]]
      by (simp add: setex_def hdel_def zincrby_def length_delete_le split: option.splits)
  qed
qed

text \<open>C2: a registered player at \<open>(x,y)\<close> who moves in direction U, R, D or L, with the
  delta \<open>(0,-1)\<close>, \<open>(1,0)\<close>, \<open>(0,1)\<close> or \<open>(-1,0)\<close>, is afterwards at
  \<open>(max 0 (min 63 (x + dx)), max 0 (min 63 (y + dy)))\<close>, each axis clamped on its own.\<close>

theorem move_position:
  assumes "get_key name s = Some (Num x, Num y)"
    and "(direction, dx, dy) \<in> {(''U'', 0, - 1), (''R'', 1, 0), (''D'', 0, 1), (''L'', - 1, 0)}"
  shows "get_key name (db (move rnd direction name s))
     = Some (Num (max 0 (min 63 (x + dx))), Num (max 0 (min 63 (y + dy))))"
proof -
  have d: "delta_of direction = Arr dx dy" using assms(2) by (auto simp: delta_of_def)
  have t: "truthy (delta_of direction)" using d by simp
  show ?thesis
    unfolding move_db [OF t assms(1)] get_key_setex d by (simp add: clamp_def)
qed

text \<open>The theorem for alice at \<open>(10,10)\<close> moving up.\<close>

theorem move_position_witness:
  "get_key ''alice'' alice_store = Some (Num 10, Num 10)
   \<and> get_key ''alice'' (db (move zero_draws ''U'' ''alice'' alice_store)) = Some (Num 10, Num 9)"
proof -
  have g: "get_key ''alice'' alice_store = Some (Num 10, Num 10)"
    by (simp add: get_key_def alice_store_def)
  have m: "(''U'', 0, - 1) \<in> {(''U'', 0, - 1), (''R'', 1, 0), (''D'', 0, 1), (''L'', - 1, 0 :: int)}"
    by simp
  show ?thesis using g move_position [OF g m, of zero_draws] by simp
qed

text \<open>C1: a registered player moves in direction U, R, D or L and is at \<open>cell\<close> afterwards.
  If \<open>cell\<close> held a coin of value \<open>v\<close>, the player's score is its old score (0 when it
  had none) plus \<open>v\<close>, no other score changes, the coin is gone and every other coin is
  as before. If \<open>cell\<close> held no coin, the scores and the coins are unchanged.\<close>

theorem move_collects_coin:
  assumes "get_key name s = Some pos"
    and "direction \<in> {''U'', ''R'', ''D'', ''L''}"
    and "get_key name (db (move rnd direction name s)) = Some cell"
  shows "(\<forall>v. hget cell s = Some v \<longrightarrow>
            zscore name (db (move rnd direction name s))
              = Some ((case zscore name s of None \<Rightarrow> 0 | Some old \<Rightarrow> old) + v)
          \<and> (\<forall>other. other \<noteq> name \<longrightarrow>
                zscore other (db (move rnd direction name s)) = zscore other s)
          \<and> hget cell (db (move rnd direction name s)) = None
          \<and> (\<forall>c. c \<noteq> cell \<longrightarrow> hget c (db (move rnd direction name s)) = hget c s))
       \<and> (hget cell s = None \<longrightarrow>
            scores_key (db (move rnd direction name s)) = scores_key s
          \<and> coins_key (db (move rnd direction name s)) = coins_key s)"
proof -
  obtain x y where pos: "pos = (x, y)" by (cases pos)
  have t: "truthy (delta_of direction)" using assms(2) by (auto simp: delta_of_def)
  let ?cell = "(clamp (js_add x (delta0 (delta_of direction))) (Num 0) (Num 63),
                clamp (js_add y (delta1 (delta_of direction))) (Num 0) (Num 63))"
  let ?s1 = "case hget ?cell s of None \<Rightarrow> s | Some v \<Rightarrow> hdel ?cell (zincrby v name s)"
  have m: "db (move rnd direction name s) = setex name 300 ?cell ?s1"
    using move_db [OF t, of name s x y rnd] assms(1) pos by simp
  have c: "cell = ?cell" using assms(3) unfolding m get_key_setex by simp
  show ?thesis
    unfolding m c
    by (auto simp: setex_def hget_def hdel_def zincrby_def zscore_def update_conv' delete_conv')
qed

text \<open>The theorem for alice, with score 5, moving up onto the coin of value 5 at
  \<open>(10,9)\<close>.\<close>

theorem move_collects_coin_witness:
  "get_key ''alice'' alice_store = Some (Num 10, Num 10)
   \<and> ''U'' \<in> {''U'', ''R'', ''D'', ''L''}
   \<and> hget (Num 10, Num 9) alice_store = Some 5
   \<and> zscore ''alice'' alice_store = Some 5
   \<and> zscore ''alice'' (db (move zero_draws ''U'' ''alice'' alice_store)) = Some 10
   \<and> hget (Num 10, Num 9) (db (move zero_draws ''U'' ''alice'' alice_store)) = None"
proof -
  have g: "get_key ''alice'' alice_store = Some (Num 10, Num 10)"
    by (simp add: get_key_def alice_store_def)
  have d: "''U'' \<in> {''U'', ''R'', ''D'', ''L''}" by simp
  have c: "get_key ''alice'' (db (move zero_draws ''U'' ''alice'' alice_store)) = Some (Num 10, Num 9)"
    unfolding alice_moves_up by (simp add: get_key_def)
  have h: "hget (Num 10, Num 9) alice_store = Some 5" by (simp add: hget_def alice_store_def)
  have z: "zscore ''alice'' alice_store = Some 5" by (simp add: zscore_def alice_store_def)
  show ?thesis using move_collects_coin [OF g d c] g h z by simp
qed

text \<open>C4 fails on the code. When alice takes the last coin, \<open>hgetall\<close> answers \<open>null\<close>
  and \<open>coinList.length\<close> throws: \<open>placeCoins\<close> is not called, the promise stays pending,
  and \<open>state\<close>, its scan answered in one page, shows no coin. (By \<open>move_never_places_coins\<close> no call of \<open>move\<close> ever
  adds a coin.)\<close>

theorem last_coin_not_regenerated:
  "hget (Num 10, Num 9) last_coin_store = Some 5
   \<and> length (coins_key last_coin_store) = 1
   \<and> coins_key (db (move zero_draws ''U'' ''alice'' last_coin_store)) = []
   \<and> zscore ''alice'' (db (move zero_draws ''U'' ''alice'' last_coin_store)) = Some 10
   \<and> settled (move zero_draws ''U'' ''alice'' last_coin_store) = Pending
   \<and> uncaught (move zero_draws ''U'' ''alice'' last_coin_store) = Some TypeError
   \<and> state (one_page [''alice'']) (db (move zero_draws ''U'' ''alice'' last_coin_store))
       = Resolved \<lparr>positions = [(''alice'', Some (Num 10, Num 9))],
                    scores = [(Member ''alice'', Score 10)],
                    coins = Null\<rparr>"
  by (simp add: move_eval last_coin_store_def alice_store_def state_def scanValues_one_page
      one_page_def player_key_def mget_def element_def zrevrange_def enumerate_eq_zip)

text \<open>C7 fails on the code. For a name with no player key \<open>client.get\<close> answers \<open>null\<close>
  and \<open>playerPosition.split\<close> throws inside the callback: the store is unchanged, but
  the promise is neither rejected nor resolved, so no error reaches the caller.\<close>

theorem move_unregistered_throws:
  "get_key ''ghost'' alice_store = None
   \<and> db (move zero_draws ''U'' ''ghost'' alice_store) = alice_store
   \<and> settled (move zero_draws ''U'' ''ghost'' alice_store) = Pending
   \<and> uncaught (move zero_draws ''U'' ''ghost'' alice_store) = Some TypeError"
  by (simp add: move_eval alice_store_def)

text \<open>C9 fails on the code. \<open>toString\<close> is not one of U, R, D, L, yet the property read
  finds \<open>Object.prototype.toString\<close>, which is truthy: the move goes on with
  \<open>NaN\<close> deltas and writes the position \<open>"NaN,NaN"\<close>.\<close>

theorem move_inherited_direction_writes:
  "''toString'' \<notin> {''U'', ''R'', ''D'', ''L''}
   \<and> get_key ''alice'' alice_store = Some (Num 10, Num 10)
   \<and> get_key ''alice'' (db (move zero_draws ''toString'' ''alice'' alice_store)) = Some (NaN, NaN)
   \<and> player_keys (db (move zero_draws ''toString'' ''alice'' alice_store))
       = [(''alice'', (NaN, NaN), 300)]"
  by (simp add: move_eval alice_store_def)

text \<open>C10 fails on the code, by the defect of C9. \<open>constructor\<close> is not one of U, R, D,
  L, yet the property read finds \<open>Object.prototype.constructor\<close>, which is truthy: the
  move goes on and its promise is resolved.\<close>

theorem move_inherited_direction_settles:
  "''constructor'' \<notin> {''U'', ''R'', ''D'', ''L''}
   \<and> get_key ''alice'' alice_store = Some (Num 10, Num 10)
   \<and> settled (move zero_draws ''constructor'' ''alice'' alice_store) = Resolved ()
   \<and> uncaught (move zero_draws ''constructor'' ''alice'' alice_store) = None"
  by (simp add: move_eval alice_store_def)

section \<open>Reachable stores\<close>

text \<open>In every reachable store the player keys are distinct, each has a member of
  \<open>scores\<close>, the members of \<open>scores\<close> are the used names, and no key expires later than
  300 seconds from now.\<close>

lemma store_invD:
  assumes "store_inv s"
  shows "distinct (map fst (player_keys s))"
    and "fst ` set (player_keys s) \<subseteq> fst ` set (scores_key s)"
    and "fst ` set (scores_key s) = usednames_key s"
    and "\<forall>e \<in> set (player_keys s). snd (snd e) \<le> clock s + 300"
proof -
  note u = assms [unfolded store_inv_def]
  show "distinct (map fst (player_keys s))" by (rule u [THEN conjunct1])
  show "fst ` set (player_keys s) \<subseteq> fst ` set (scores_key s)"
    by (rule u [THEN conjunct2, THEN conjunct1])
  show "fst ` set (scores_key s) = usednames_key s"
    by (rule u [THEN conjunct2, THEN conjunct2, THEN conjunct1])
  show "\<forall>e \<in> set (player_keys s). snd (snd e) \<le> clock s + 300"
    by (rule u [THEN conjunct2, THEN conjunct2, THEN conjunct2])
qed

lemma set_update_deadline:
  "e \<in> set (AList.update k (p, d) al) \<Longrightarrow> e \<in> set al \<or> e = (k, p, d)"
  by (induction al) (auto split: if_splits)

lemma store_inv_placeCoins: "store_inv s \<Longrightarrow> store_inv (placeCoins rnd s)"
  by (auto simp: store_inv_def placeCoins_other)

lemma store_inv_advance: "store_inv s \<Longrightarrow> store_inv (advance dt s)"
  by (auto simp: store_inv_def advance_def)

lemma store_inv_setex:
  assumes "store_inv s" and "name \<in> fst ` set (scores_key s)"
  shows "store_inv (setex name 300 p s)"
proof -
  have d: "distinct (map fst (AList.update name (p, clock s + 300) (player_keys s)))"
    using assms(1) by (simp add: store_inv_def distinct_update)
  have k: "fst ` set (AList.update name (p, clock s + 300) (player_keys s)) \<subseteq> fst ` set (scores_key s)"
    using assms by (auto simp: store_inv_def dom_update)
  have t: "\<forall>e \<in> set (AList.update name (p, clock s + 300) (player_keys s)). snd (snd e) \<le> clock s + 300"
  proof
    fix e assume "e \<in> set (AList.update name (p, clock s + 300) (player_keys s))"
    then have "e \<in> set (player_keys s) \<or> e = (name, p, clock s + 300)" by (rule set_update_deadline)
    then show "snd (snd e) \<le> clock s + 300" using assms(1) by (auto simp: store_inv_def)
  qed
  show ?thesis using d k t assms(1) by (auto simp: store_inv_def setex_def)
qed

lemma store_inv_names:
  assumes "store_inv s"
  shows "store_inv (s\<lparr>scores_key := AList.update name v (scores_key s),
                      usednames_key := insert name (usednames_key s)\<rparr>)"
  using assms by (auto simp: store_inv_def dom_update)

lemma store_inv_addPlayer: "store_inv s \<Longrightarrow> store_inv (db (addPlayer u1 u2 name s))"
proof -
  assume i: "store_inv s"
  let ?s1 = "s\<lparr>scores_key := AList.update name 0 (scores_key s),
                usednames_key := insert name (usednames_key s)\<rparr>"
  have i1: "store_inv ?s1" using i by (rule store_inv_names)
  have n: "name \<in> fst ` set (scores_key ?s1)" by (simp add: dom_update)
  have "db (addPlayer u1 u2 name s) = setex name 300 (Num \<lfloor>u1 * 64\<rfloor>, Num \<lfloor>u2 * 64\<rfloor>) ?s1"
    by (simp add: addPlayer_db zadd_def setex_def sadd_def)
  then show ?thesis using store_inv_setex [OF i1 n] by simp
qed

lemma get_key_in_keys: "get_key name s = Some p \<Longrightarrow> name \<in> fst ` set (player_keys s)"
  by (auto simp: get_key_def split: option.splits dest!: map_of_SomeD intro: rev_image_eqI)

lemma store_inv_claim:
  assumes "store_inv s" and "name \<in> fst ` set (scores_key s)"
  shows "store_inv (hdel c (zincrby v name s))"
proof -
  have "fst ` set (AList.update name w (scores_key s)) = fst ` set (scores_key s)" for w
    using assms(2) by (auto simp: dom_update)
  then have sc: "fst ` set (scores_key (hdel c (zincrby v name s))) = fst ` set (scores_key s)"
    by (simp add: hdel_def zincrby_def)
  have pk: "player_keys (hdel c (zincrby v name s)) = player_keys s"
    and cl: "clock (hdel c (zincrby v name s)) = clock s"
    and un: "usednames_key (hdel c (zincrby v name s)) = usednames_key s"
    by (simp_all add: hdel_def zincrby_def)
  show ?thesis using assms(1) unfolding store_inv_def sc pk cl un .
qed

lemma scores_names_claim:
  "name \<in> fst ` set (scores_key s) \<Longrightarrow> name \<in> fst ` set (scores_key (hdel c (zincrby v name s)))"
  by (simp add: hdel_def zincrby_def dom_update)

lemma store_inv_move: "store_inv s \<Longrightarrow> store_inv (db (move rnd direction name s))"
proof (cases "truthy (delta_of direction)")
  case False
  assume "store_inv s"
  then show ?thesis using False by (simp add: move_def Let_def)
next
  case True
  assume i: "store_inv s"
  show ?thesis
  proof (cases "get_key name s")
    case None
    then show ?thesis using i True by (simp add: move_def Let_def)
  next
    case (Some p)
    obtain x y where p: "p = (x, y)" by (cases p)
    have n: "name \<in> fst ` set (scores_key s)"
      using get_key_in_keys [OF Some] i by (auto simp: store_inv_def)
    let ?cell = "(clamp (js_add x (delta0 (delta_of direction))) (Num 0) (Num 63),
                  clamp (js_add y (delta1 (delta_of direction))) (Num 0) (Num 63))"
    show ?thesis
    proof (cases "hget ?cell s")
      case None
      have "db (move rnd direction name s) = setex name 300 ?cell s"
        unfolding move_db [OF True Some [unfolded p]] using None by simp
      then show ?thesis using store_inv_setex [OF i n] by simp
    next
      case (Some v)
      have "db (move rnd direction name s) = setex name 300 ?cell (hdel ?cell (zincrby v name s))"
        unfolding move_db [OF True \<open>get_key name s = Some p\<close> [unfolded p]] using Some by simp
      then show ?thesis
        using store_inv_setex [OF store_inv_claim [OF i n] scores_names_claim [OF n]] by simp
    qed
  qed
qed

lemma reachable_inv: "reachable s \<Longrightarrow> store_inv s"
proof (induction rule: reachable.induct)
  case (start rnd)
  have "store_inv empty_store" by (simp add: store_inv_def empty_store_def)
  then show ?case by (rule store_inv_placeCoins)
qed (simp_all add: store_inv_placeCoins store_inv_addPlayer store_inv_move store_inv_advance)

lemma registered_subset_leaderboard: "store_inv s \<Longrightarrow> registered s \<subseteq> leaderboard s"
proof -
  assume i: "store_inv s"
  have "registered s \<subseteq> fst ` set (player_keys s)" by (auto simp: registered_def)
  moreover have "fst ` set (player_keys s) \<subseteq> leaderboard s"
    unfolding leaderboard_def by (rule store_invD(2) [OF i])
  ultimately show ?thesis by (rule subset_trans)
qed

lemma leaderboard_usednames: "store_inv s \<Longrightarrow> leaderboard s = usednames_key s"
  unfolding leaderboard_def by (rule store_invD(3))

subsection \<open>What state shows\<close>

text \<open>Whatever the scan resolves with, its keys come from the pages of the replies.\<close>

lemma scanHelper_keys:
  assumes "scanHelper replies s k keys vals = Some y"
    and "\<forall>j. set (snd (replies j)) \<subseteq> A" and "set keys \<subseteq> A"
  shows "set (fst y) \<subseteq> A"
proof -
  have "(\<forall>j. set (snd (replies j)) \<subseteq> A) \<longrightarrow> set keys \<subseteq> A \<longrightarrow> set (fst y) \<subseteq> A"
  proof (rule scanHelper.raw_induct
      [where P = "\<lambda>replies s k keys vals y.
          (\<forall>j. set (snd (replies j)) \<subseteq> A) \<longrightarrow> set keys \<subseteq> A \<longrightarrow> set (fst y) \<subseteq> A",
        OF _ assms(1)])
    fix f :: "(nat \<Rightarrow> string \<times> string list) \<Rightarrow> store \<Rightarrow> nat \<Rightarrow> string list \<Rightarrow> point option list
                \<Rightarrow> (string list \<times> point option list) option"
    fix replies s k keys vals y
    assume IH: "\<And>r' s' k' ks' vs' y'. f r' s' k' ks' vs' = Some y' \<Longrightarrow>
        (\<forall>j. set (snd (r' j)) \<subseteq> A) \<longrightarrow> set ks' \<subseteq> A \<longrightarrow> set (fst y') \<subseteq> A"
    assume step: "(case replies k of
        (cursor, matches) \<Rightarrow>
          if length matches = 0 then Some (keys @ matches, vals)
          else if cursor = ''0'' then Some (keys @ matches, vals @ mget matches s)
          else f replies s (Suc k) (keys @ matches) (vals @ mget matches s)) = Some y"
    obtain cursor matches where r: "replies k = (cursor, matches)" by (cases "replies k")
    show "(\<forall>j. set (snd (replies j)) \<subseteq> A) \<longrightarrow> set keys \<subseteq> A \<longrightarrow> set (fst y) \<subseteq> A"
    proof (intro impI)
      assume a: "\<forall>j. set (snd (replies j)) \<subseteq> A" and b: "set keys \<subseteq> A"
      have m: "set matches \<subseteq> A" using a [THEN spec, of k] r by simp
      have km: "set (keys @ matches) \<subseteq> A" using b m by simp
      show "set (fst y) \<subseteq> A"
      proof (cases "length matches = 0")
        case True
        then show ?thesis using step r km by auto
      next
        case False
        show ?thesis
        proof (cases "cursor = ''0''")
          case True
          then show ?thesis using step r km False by auto
        next
          case c: False
          have "f replies s (Suc k) (keys @ matches) (vals @ mget matches s) = Some y"
            using step r False c by simp
          then show ?thesis using IH a km by blast
        qed
      qed
    qed
  qed
  then show ?thesis using assms(2,3) by blast
qed

text \<open>While every reply has a page with keys and a cursor other than \<open>'0'\<close>, the rounds
  go on and the promise of \<open>state\<close> stays pending.\<close>

lemma scanHelper_never:
  assumes "scanHelper replies s k keys vals = Some y"
  shows "\<not> (\<forall>j. fst (replies j) \<noteq> ''0'' \<and> snd (replies j) \<noteq> [])"
proof (rule scanHelper.raw_induct
    [where P = "\<lambda>replies s k keys vals y. \<not> (\<forall>j. fst (replies j) \<noteq> ''0'' \<and> snd (replies j) \<noteq> [])",
      OF _ assms])
  fix f :: "(nat \<Rightarrow> string \<times> string list) \<Rightarrow> store \<Rightarrow> nat \<Rightarrow> string list \<Rightarrow> point option list
              \<Rightarrow> (string list \<times> point option list) option"
  fix replies s k keys vals y
  assume IH: "\<And>r' s' k' ks' vs' y'. f r' s' k' ks' vs' = Some y' \<Longrightarrow>
      \<not> (\<forall>j. fst (r' j) \<noteq> ''0'' \<and> snd (r' j) \<noteq> [])"
  assume step: "(case replies k of
      (cursor, matches) \<Rightarrow>
        if length matches = 0 then Some (keys @ matches, vals)
        else if cursor = ''0'' then Some (keys @ matches, vals @ mget matches s)
        else f replies s (Suc k) (keys @ matches) (vals @ mget matches s)) = Some y"
  obtain cursor matches where r: "replies k = (cursor, matches)" by (cases "replies k")
  show "\<not> (\<forall>j. fst (replies j) \<noteq> ''0'' \<and> snd (replies j) \<noteq> [])"
  proof
    assume a: "\<forall>j. fst (replies j) \<noteq> ''0'' \<and> snd (replies j) \<noteq> []"
    have "cursor \<noteq> ''0''" "matches \<noteq> []" using a [THEN spec, of k] r by simp_all
    then have "f replies s (Suc k) (keys @ matches) (vals @ mget matches s) = Some y"
      using step r by simp
    then show False using IH a by blast
  qed
qed

lemma state_pending:
  assumes "\<forall>j. fst (replies j) \<noteq> ''0'' \<and> snd (replies j) \<noteq> []"
  shows "state replies s = Pending"
proof (cases "scanValues replies s")
  case None
  then show ?thesis by (simp add: state_def)
next
  case (Some y)
  then show ?thesis using scanHelper_never [of replies s 0 "[]" "[]" y] assms
    by (simp add: scanValues_def)
qed

lemma map_drop_enumerate:
  "map fst (map (\<lambda>(index, playerKey). (drop 7 playerKey, g index)) (enumerate 0 ks)) = map (drop 7) ks"
proof -
  have "map fst (map (\<lambda>(index, playerKey). (drop 7 playerKey, g index)) (enumerate 0 ks))
        = map (\<lambda>x. drop 7 (snd x)) (enumerate 0 ks)"
    by (simp add: case_prod_unfold comp_def)
  also have "\<dots> = map (drop 7) (map snd (enumerate 0 ks))"
    by (simp only: map_map comp_def)
  finally show ?thesis by (simp only: map_snd_enumerate)
qed

lemma drop_player_key: "drop 7 (player_key name) = name"
  by (simp add: player_key_def)

lemma state_resolved:
  assumes "state replies s = Resolved snap"
  shows "\<exists>playerKeys playerValues. scanValues replies s = Some (playerKeys, playerValues)
           \<and> map fst (positions snap) = map (drop 7) playerKeys
           \<and> scores snap = pairs (zrevrange s) \<and> coins snap = hgetall s"
proof (cases "scanValues replies s")
  case None
  then show ?thesis using assms by (simp add: state_def)
next
  case (Some kv)
  obtain ks vs where kv: "kv = (ks, vs)" by (cases kv)
  have "snap = \<lparr>positions = map (\<lambda>(index, playerKey). (drop 7 playerKey, element vs index))
                               (enumerate 0 ks),
                 scores = pairs (zrevrange s), coins = hgetall s\<rparr>"
    using assms Some kv by (simp add: state_def)
  moreover have "map fst (map (\<lambda>(index, playerKey). (drop 7 playerKey, element vs index))
                    (enumerate 0 ks)) = map (drop 7) ks"
    by (rule map_drop_enumerate)
  ultimately show ?thesis using Some kv by simp
qed

lemma state_positions_registered:
  assumes "scan_replies s replies" and "state replies s = Resolved snap"
  shows "fst ` set (positions snap) \<subseteq> registered s"
proof -
  obtain ks vs where sc: "scanValues replies s = Some (ks, vs)"
    and ps: "map fst (positions snap) = map (drop 7) ks"
    using state_resolved [OF assms(2)] by blast
  have a: "\<forall>j. set (snd (replies j)) \<subseteq> player_key ` registered s"
    using assms(1) by (simp add: scan_replies_def)
  have "set ks \<subseteq> player_key ` registered s"
    using scanHelper_keys [OF sc [unfolded scanValues_def] a] by simp
  then have "drop 7 ` set ks \<subseteq> registered s" by (auto simp: drop_player_key)
  moreover have "fst ` set (positions snap) = drop 7 ` set ks"
    using ps by (metis set_map)
  ultimately show ?thesis by simp
qed

lemma state_one_page:
  assumes "scan_replies s replies" and "fst (replies 0) = ''0''"
  shows "\<exists>snap. state replies s = Resolved snap \<and> fst ` set (positions snap) = registered s"
proof -
  let ?ks = "snd (replies 0)"
  let ?vs = "if ?ks = [] then [] else mget ?ks s"
  have sc: "scanValues replies s = Some (?ks, ?vs)"
    using scanValues_one_page [of replies s] assms(2) by simp
  let ?snap = "\<lparr>positions = map (\<lambda>(index, playerKey). (drop 7 playerKey, element ?vs index))
                               (enumerate 0 ?ks),
                 scores = pairs (zrevrange s), coins = hgetall s\<rparr>"
  have st: "state replies s = Resolved ?snap" by (simp add: state_def sc)
  obtain ks' vs' where sc': "scanValues replies s = Some (ks', vs')"
    and ps: "map fst (positions ?snap) = map (drop 7) ks'"
    using state_resolved [OF st] by blast
  have "ks' = ?ks" using sc sc' by simp
  then have "fst ` set (positions ?snap) = drop 7 ` set ?ks" using ps by (metis set_map)
  moreover have "set ?ks = player_key ` registered s"
    using assms by (simp add: scan_replies_def)
  ultimately have "fst ` set (positions ?snap) = registered s"
    by (simp add: image_image drop_player_key)
  then show ?thesis using st by blast
qed

lemma pairs_withscores: "pairs (withscores xs) = map (\<lambda>e. (Member (fst e), Score (snd e))) xs"
  by (induction xs) auto

lemma zrevrange_names: "(Member name \<in> fst ` set (pairs (zrevrange s))) = (name \<in> leaderboard s)"
  by (force simp: zrevrange_def pairs_withscores leaderboard_def)

lemma state_scores_leaderboard:
  assumes "state replies s = Resolved snap"
  shows "(Member name \<in> fst ` set (scores snap)) = (name \<in> leaderboard s)"
proof -
  have "scores snap = pairs (zrevrange s)" using state_resolved [OF assms] by blast
  then show ?thesis by (simp only: zrevrange_names)
qed

subsection \<open>Expiry\<close>

lemma expired_not_registered:
  assumes "distinct (map fst (player_keys s))"
    and "map_of (player_keys s) name = Some (p, d)" and "d < clock s"
  shows "name \<notin> registered s"
proof
  assume "name \<in> registered s"
  then obtain e where e: "e \<in> set (player_keys s)" "live s e" "fst e = name"
    by (auto simp: registered_def)
  then have "(name, snd e) \<in> set (player_keys s)" by (cases e) auto
  then have "map_of (player_keys s) name = Some (snd e)" using assms(1) by simp
  then have "snd e = (p, d)" using assms(2) by simp
  then show False using e(2) assms(3) by (simp add: live_def)
qed

lemma absent_not_registered:
  "map_of (player_keys s) name = None \<Longrightarrow> name \<notin> registered s"
  by (auto simp: registered_def map_of_eq_None_iff)

lemma registered_get_key:
  "distinct (map fst (player_keys s)) \<Longrightarrow> (name \<in> registered s) = (get_key name s \<noteq> None)"
proof (cases "map_of (player_keys s) name")
  case None
  then show ?thesis using absent_not_registered [OF None] by (simp add: get_key_def)
next
  case (Some pd)
  assume d: "distinct (map fst (player_keys s))"
  obtain p dl where pd: "pd = (p, dl)" by (cases pd)
  show ?thesis
  proof (cases "clock s \<le> dl")
    case True
    have "(name, p, dl) \<in> set (player_keys s)" using Some pd by (auto dest: map_of_SomeD)
    then have "name \<in> registered s" using True by (force simp: registered_def live_def)
    then show ?thesis using Some pd True by (simp add: get_key_def)
  next
    case False
    then have "name \<notin> registered s" using expired_not_registered [OF d Some [unfolded pd]] by simp
    then show ?thesis using Some pd False by (simp add: get_key_def)
  qed
qed

lemma move_frame:
  "other \<noteq> name \<Longrightarrow>
     map_of (player_keys (db (move rnd direction other s))) name = map_of (player_keys s) name
     \<and> clock (db (move rnd direction other s)) = clock s
     \<and> usednames_key (db (move rnd direction other s)) = usednames_key s"
proof (cases "truthy (delta_of direction)")
  case False
  then show ?thesis by (simp add: move_def Let_def)
next
  case True
  assume o: "other \<noteq> name"
  show ?thesis
  proof (cases "get_key other s")
    case None
    then show ?thesis using True by (simp add: move_def Let_def)
  next
    case (Some p)
    obtain x y where p: "p = (x, y)" by (cases p)
    show ?thesis
      unfolding move_db [OF True Some [unfolded p]] using o
      by (simp add: setex_def hdel_def zincrby_def update_conv' split: option.splits)
  qed
qed

lemma addPlayer_frame:
  "other \<noteq> name \<Longrightarrow>
     map_of (player_keys (db (addPlayer u1 u2 other s))) name = map_of (player_keys s) name
     \<and> clock (db (addPlayer u1 u2 other s)) = clock s
     \<and> usednames_key s \<subseteq> usednames_key (db (addPlayer u1 u2 other s))"
  unfolding addPlayer_db by (auto simp: zadd_def setex_def sadd_def update_conv')

lemma quiet_frame:
  "quiet name s s' \<Longrightarrow>
     map_of (player_keys s') name = map_of (player_keys s) name
     \<and> clock s \<le> clock s' \<and> usednames_key s \<subseteq> usednames_key s'
     \<and> (reachable s \<longrightarrow> reachable s')"
proof (induction rule: quiet.induct)
  case still
  then show ?case by simp
next
  case (others_add s s' other u1 u2)
  then show ?case using addPlayer_frame [of other name u1 u2 s'] by (auto intro: reachable.add)
next
  case (others_move s s' other rnd direction)
  then show ?case using move_frame [of other name rnd direction s'] by (auto intro: reachable.mv)
next
  case (time s s' dt)
  have a: "player_keys (advance dt s') = player_keys s'" "clock (advance dt s') = clock s' + dt"
    "usednames_key (advance dt s') = usednames_key s'" by (simp_all add: advance_def)
  show ?case unfolding a using time.IH by (auto intro: reachable.wait)
qed

lemma quiet_expires:
  assumes "reachable s" and "quiet name s s'" and "clock s + 300 < clock s'"
  shows "name \<notin> registered s'"
proof (cases "map_of (player_keys s') name")
  case None
  then show ?thesis by (rule absent_not_registered)
next
  case (Some pd)
  obtain p d where pd: "pd = (p, d)" by (cases pd)
  have f: "map_of (player_keys s) name = Some (p, d)" using quiet_frame [OF assms(2)] Some pd by simp
  then have "(name, p, d) \<in> set (player_keys s)" by (auto dest: map_of_SomeD)
  then have "d \<le> clock s + 300" using reachable_inv [OF assms(1)] by (force simp: store_inv_def)
  then have e: "d < clock s'" using assms(3) by simp
  have "reachable s'" using quiet_frame [OF assms(2)] assms(1) by simp
  then have "distinct (map fst (player_keys s'))" using reachable_inv by (simp add: store_inv_def)
  then show ?thesis using expired_not_registered [OF _ Some [unfolded pd] e] by simp
qed

lemma bob_joined_fields:
  "clock bob_joined = 0" "player_keys bob_joined = [(''bob'', (Num 0, Num 0), 300)]"
  "scores_key bob_joined = [(''bob'', 0)]" "usednames_key bob_joined = {''bob''}"
  by (simp_all add: bob_joined_def addPlayer_db zadd_def setex_def sadd_def placeCoins_other
      empty_store_def)

lemma bob_joined_reachable: "reachable bob_joined"
  unfolding bob_joined_def
  by (rule reachable.add [OF reachable.start [OF zero_draws_valid]]) simp_all

lemma bob_expired_fields:
  "clock bob_expired = 301" "player_keys bob_expired = [(''bob'', (Num 0, Num 0), 300)]"
  "scores_key bob_expired = [(''bob'', 0)]" "usednames_key bob_expired = {''bob''}"
  by (simp_all add: bob_expired_def advance_def bob_joined_fields)

lemma carol_joined_fields:
  "clock carol_joined = 301"
  "player_keys carol_joined = [(''bob'', (Num 0, Num 0), 300), (''carol'', (Num 0, Num 0), 500)]"
  "scores_key carol_joined = [(''bob'', 0), (''carol'', 0)]"
  "usednames_key carol_joined = {''bob'', ''carol''}"
  by (auto simp: carol_joined_def advance_def addPlayer_db zadd_def setex_def sadd_def
      bob_joined_fields)

lemma bob_expired_reachable: "reachable bob_expired"
  unfolding bob_expired_def by (rule reachable.wait [OF bob_joined_reachable])

lemma bob_expired_registered: "registered bob_expired = {}"
  by (simp add: registered_def bob_expired_fields live_def)

lemma bob_expired_scan: "scan_replies bob_expired (one_page [])"
  by (simp add: scan_replies_def one_page_def bob_expired_registered)

lemma bob_expired_state: "state (one_page []) bob_expired = Resolved bob_expired_snapshot"
  by (simp add: state_def scanValues_one_page one_page_def bob_expired_snapshot_def)

lemma carol_joined_quiet: "quiet ''bob'' bob_joined carol_joined"
  unfolding carol_joined_def
  by (rule quiet.time [OF quiet.others_add [OF quiet.time [OF quiet.still]]]) simp_all

lemma carol_joined_registered: "registered carol_joined = {''carol''}"
  by (simp add: registered_def carol_joined_fields live_def)

lemma carol_joined_scan: "scan_replies carol_joined (one_page [''carol''])"
  by (simp add: scan_replies_def one_page_def carol_joined_registered)

lemma carol_joined_state: "state (one_page [''carol'']) carol_joined = Resolved carol_snapshot"
  by (simp add: state_def scanValues_one_page one_page_def carol_snapshot_def player_key_def
      mget_def element_def enumerate_eq_zip get_key_def carol_joined_fields)

text \<open>C8, as the code has it. In every reachable store each registered name is on the
  leaderboard, and the names on the leaderboard are the used names. Whenever \<open>state\<close>
  answers, its positions are of registered names (of all of them when the scan is
  answered in one page) and its scores are the leaderboard. Once a player has been
  inactive for longer than 300 seconds, it is no longer registered and \<open>state\<close> shows it
  in no position; a name that was on the leaderboard is still on it, \<open>state\<close> shows it
  among the scores, and \<open>addPlayer\<close> answers \<open>false\<close> for it.\<close>

theorem expired_player_stays_on_leaderboard:
  assumes "reachable s"
  shows "registered s \<subseteq> leaderboard s
     \<and> leaderboard s = usednames_key s
     \<and> (\<forall>name. (name \<in> registered s) = (get_key name s \<noteq> None))
     \<and> (\<forall>replies snap. scan_replies s replies \<and> state replies s = Resolved snap \<longrightarrow>
            fst ` set (positions snap) \<subseteq> registered s
          \<and> (\<forall>name. (Member name \<in> fst ` set (scores snap)) = (name \<in> leaderboard s)))
     \<and> (\<forall>replies. scan_replies s replies \<and> fst (replies 0) = ''0'' \<longrightarrow>
            (\<exists>snap. state replies s = Resolved snap \<and> fst ` set (positions snap) = registered s))
     \<and> (\<forall>name s'. quiet name s s' \<and> clock s + 300 < clock s' \<longrightarrow>
           name \<notin> registered s'
         \<and> (\<forall>replies snap. scan_replies s' replies \<and> state replies s' = Resolved snap \<longrightarrow>
                name \<notin> fst ` set (positions snap))
         \<and> (name \<in> leaderboard s \<longrightarrow>
              name \<in> leaderboard s'
            \<and> (\<forall>replies snap. state replies s' = Resolved snap \<longrightarrow>
                   Member name \<in> fst ` set (scores snap))
            \<and> (\<forall>u1 u2. settled (addPlayer u1 u2 name s') = Resolved False)))"
proof -
  have i: "store_inv s" using assms by (rule reachable_inv)
  have a: "registered s \<subseteq> leaderboard s" using i by (rule registered_subset_leaderboard)
  have b: "leaderboard s = usednames_key s" using i by (rule leaderboard_usednames)
  have dk: "distinct (map fst (player_keys s))" using i by (rule store_invD(1))
  have c: "\<forall>name. (name \<in> registered s) = (get_key name s \<noteq> None)"
    by (intro allI) (rule registered_get_key [OF dk])
  have d: "\<forall>replies snap. scan_replies s replies \<and> state replies s = Resolved snap \<longrightarrow>
            fst ` set (positions snap) \<subseteq> registered s
          \<and> (\<forall>name. (Member name \<in> fst ` set (scores snap)) = (name \<in> leaderboard s))"
  proof (intro allI impI, elim conjE)
    fix replies snap
    assume sr: "scan_replies s replies" and st: "state replies s = Resolved snap"
    have p: "fst ` set (positions snap) \<subseteq> registered s"
      by (rule state_positions_registered [OF sr st])
    have q: "\<forall>name. (Member name \<in> fst ` set (scores snap)) = (name \<in> leaderboard s)"
      by (intro allI) (rule state_scores_leaderboard [OF st])
    show "fst ` set (positions snap) \<subseteq> registered s
          \<and> (\<forall>name. (Member name \<in> fst ` set (scores snap)) = (name \<in> leaderboard s))"
      by (rule conjI [OF p q])
  qed
  have f: "\<forall>replies. scan_replies s replies \<and> fst (replies 0) = ''0'' \<longrightarrow>
            (\<exists>snap. state replies s = Resolved snap \<and> fst ` set (positions snap) = registered s)"
  proof (intro allI impI, elim conjE)
    fix replies
    assume "scan_replies s replies" and "fst (replies 0) = ''0''"
    then show "\<exists>snap. state replies s = Resolved snap \<and> fst ` set (positions snap) = registered s"
      by (rule state_one_page)
  qed
  have e: "\<forall>name s'. quiet name s s' \<and> clock s + 300 < clock s' \<longrightarrow>
           name \<notin> registered s'
         \<and> (\<forall>replies snap. scan_replies s' replies \<and> state replies s' = Resolved snap \<longrightarrow>
                name \<notin> fst ` set (positions snap))
         \<and> (name \<in> leaderboard s \<longrightarrow>
              name \<in> leaderboard s'
            \<and> (\<forall>replies snap. state replies s' = Resolved snap \<longrightarrow>
                   Member name \<in> fst ` set (scores snap))
            \<and> (\<forall>u1 u2. settled (addPlayer u1 u2 name s') = Resolved False))"
  proof (intro allI impI, elim conjE)
    fix name s' assume q: "quiet name s s'" and t: "clock s + 300 < clock s'"
    have n: "name \<notin> registered s'" by (rule quiet_expires [OF assms q t])
    have r: "reachable s'" using quiet_frame [OF q] assms by simp
    have i': "store_inv s'" using r by (rule reachable_inv)
    have np: "\<forall>replies snap. scan_replies s' replies \<and> state replies s' = Resolved snap \<longrightarrow>
                name \<notin> fst ` set (positions snap)"
    proof (intro allI impI, elim conjE)
      fix replies snap
      assume sr: "scan_replies s' replies" and st: "state replies s' = Resolved snap"
      have "fst ` set (positions snap) \<subseteq> registered s'"
        by (rule state_positions_registered [OF sr st])
      then show "name \<notin> fst ` set (positions snap)" using n by blast
    qed
    have l: "name \<in> leaderboard s \<Longrightarrow>
              name \<in> leaderboard s'
            \<and> (\<forall>replies snap. state replies s' = Resolved snap \<longrightarrow>
                   Member name \<in> fst ` set (scores snap))
            \<and> (\<forall>u1 u2. settled (addPlayer u1 u2 name s') = Resolved False)"
    proof -
      assume "name \<in> leaderboard s"
      then have "name \<in> usednames_key s" using b by simp
      moreover have "usednames_key s \<subseteq> usednames_key s'" using quiet_frame [OF q] by simp
      ultimately have u: "name \<in> usednames_key s'" by (rule set_mp [rotated])
      have "leaderboard s' = usednames_key s'" using i' by (rule leaderboard_usednames)
      then have l': "name \<in> leaderboard s'" using u by simp
      have m: "\<forall>replies snap. state replies s' = Resolved snap \<longrightarrow>
                   Member name \<in> fst ` set (scores snap)"
      proof (intro allI impI)
        fix replies snap assume st: "state replies s' = Resolved snap"
        show "Member name \<in> fst ` set (scores snap)"
          using state_scores_leaderboard [OF st, of name] l' by simp
      qed
      have w: "\<forall>u1 u2. settled (addPlayer u1 u2 name s') = Resolved False"
        by (intro allI) (rule used_name_rejected [OF u])
      show ?thesis by (rule conjI [OF l' conjI [OF m w]])
    qed
    show "name \<notin> registered s'
         \<and> (\<forall>replies snap. scan_replies s' replies \<and> state replies s' = Resolved snap \<longrightarrow>
                name \<notin> fst ` set (positions snap))
         \<and> (name \<in> leaderboard s \<longrightarrow>
              name \<in> leaderboard s'
            \<and> (\<forall>replies snap. state replies s' = Resolved snap \<longrightarrow>
                   Member name \<in> fst ` set (scores snap))
            \<and> (\<forall>u1 u2. settled (addPlayer u1 u2 name s') = Resolved False))"
      by (rule conjI [OF n conjI [OF np]]) (rule impI, rule l)
  qed
  show ?thesis by (rule conjI [OF a conjI [OF b conjI [OF c conjI [OF d conjI [OF f e]]]]])
qed

text \<open>The theorem for bob, 301 seconds after he registered, carol having registered in
  between: the scan is answered in one page holding carol's key.\<close>

theorem expired_player_stays_on_leaderboard_witness:
  "reachable bob_joined
   \<and> quiet ''bob'' bob_joined carol_joined
   \<and> clock bob_joined + 300 < clock carol_joined
   \<and> ''bob'' \<in> leaderboard bob_joined
   \<and> scan_replies carol_joined (one_page [''carol''])
   \<and> state (one_page [''carol'']) carol_joined = Resolved carol_snapshot
   \<and> ''bob'' \<notin> registered carol_joined
   \<and> ''bob'' \<notin> fst ` set (positions carol_snapshot)
   \<and> ''bob'' \<in> leaderboard carol_joined
   \<and> Member ''bob'' \<in> fst ` set (scores carol_snapshot)
   \<and> settled (addPlayer 0 0 ''bob'' carol_joined) = Resolved False"
proof -
  have t: "clock bob_joined + 300 < clock carol_joined"
    by (simp add: bob_joined_fields carol_joined_fields)
  have l: "''bob'' \<in> leaderboard bob_joined" by (simp add: leaderboard_def bob_joined_fields)
  note e = expired_player_stays_on_leaderboard [OF bob_joined_reachable, THEN conjunct2,
      THEN conjunct2, THEN conjunct2, THEN conjunct2, THEN conjunct2, THEN spec, THEN spec,
      THEN mp, OF conjI [OF carol_joined_quiet t]]
  note e1 = e [THEN conjunct1]
  note e2 = e [THEN conjunct2, THEN conjunct1, THEN spec, THEN spec, THEN mp,
      OF conjI [OF carol_joined_scan carol_joined_state]]
  note g = e [THEN conjunct2, THEN conjunct2, THEN mp, OF l]
  note g1 = g [THEN conjunct1]
  note g2 = g [THEN conjunct2, THEN conjunct1, THEN spec, THEN spec, THEN mp, OF carol_joined_state]
  have g3: "settled (addPlayer 0 0 ''bob'' carol_joined) = Resolved False"
    by (rule g [THEN conjunct2, THEN conjunct2, THEN spec, THEN spec])
  show ?thesis
    by (rule conjI [OF bob_joined_reachable conjI [OF carol_joined_quiet conjI [OF t conjI [OF l
          conjI [OF carol_joined_scan conjI [OF carol_joined_state conjI [OF e1 conjI [OF e2
          conjI [OF g1 conjI [OF g2 g3]]]]]]]]]])
qed

text \<open>C8 as stated fails: 301 seconds after bob registered, with nobody active, the
  store is reachable, no name is registered and bob is on the leaderboard; \<open>state\<close>
  answers with no position and with bob among the scores, and \<open>addPlayer\<close> answers
  \<open>false\<close> for his name.\<close>

theorem registered_differs_from_leaderboard:
  "reachable bob_expired
   \<and> registered bob_expired \<noteq> leaderboard bob_expired
   \<and> scan_replies bob_expired (one_page [])
   \<and> state (one_page []) bob_expired = Resolved bob_expired_snapshot
   \<and> ''bob'' \<notin> fst ` set (positions bob_expired_snapshot)
   \<and> Member ''bob'' \<in> fst ` set (scores bob_expired_snapshot)
   \<and> settled (addPlayer 0 0 ''bob'' bob_expired) = Resolved False"
proof -
  have l: "leaderboard bob_expired = {''bob''}" by (simp add: leaderboard_def bob_expired_fields)
  have n: "registered bob_expired \<noteq> leaderboard bob_expired"
    unfolding bob_expired_registered l by simp
  have p: "''bob'' \<notin> fst ` set (positions bob_expired_snapshot)"
    by (simp add: bob_expired_snapshot_def)
  have "''bob'' \<in> leaderboard bob_expired" unfolding l by simp
  then have m: "Member ''bob'' \<in> fst ` set (scores bob_expired_snapshot)"
    by (simp add: bob_expired_snapshot_def zrevrange_names)
  have a: "settled (addPlayer 0 0 ''bob'' bob_expired) = Resolved False"
    by (rule used_name_rejected) (simp add: bob_expired_fields)
  show ?thesis
    by (rule conjI [OF bob_expired_reachable conjI [OF n conjI [OF bob_expired_scan
          conjI [OF bob_expired_state conjI [OF p conjI [OF m a]]]]]])
qed

end
